theory Spec2Isabelle
  imports Complex_Main "HOL-Library.Char_ord" "HOL-Library.List_Lexorder"
begin

section \<open>FX Relative Strength Visualizer: data pipeline\<close>

text \<open>
  A shallow embedding of the data layer of the visualizer script: the two response
  normalisers of \<open>DataFetcher\<close> (\<open>_processFiatResponse\<close>, \<open>fetchCrypto\<close> with
  \<open>_processCryptoResponse\<close>), the whole of \<open>DataProcessor\<close> (\<open>process\<close>,
  \<open>_forwardFill\<close>, \<open>_calculateMonthlyReturns\<close>, \<open>_calculateRollingZScore\<close>) and the
  controller \<open>app.run\<close>, whose network calls and chart renderings are effects in a
  list.

  Conventions of the embedding.
  \<^item> A JavaScript number is a \<open>jsnum\<close>: a real, one of the two infinities, or NaN. The
    special values follow IEEE 754 as JavaScript exposes it (\<open>0/0\<close> is NaN, \<open>1/0\<close> is
    \<open>Infinity\<close>, \<open>Infinity - Infinity\<close> is NaN, NaN is falsy). Arithmetic on finite
    values is exact: rounding, overflow and the sign of zero are not modelled.
  \<^item> A price slot holds a \<open>jsval\<close>: \<open>undefined\<close> (also the value of a key that is
    not there), \<open>null\<close>, or a number.
  \<^item> Asset symbols are plain strings. \<open>app.run\<close> upper-cases every symbol, so a symbol
    never names an inherited property of \<open>Object.prototype\<close>; a lookup of a key that was
    never written is \<open>undefined\<close>.
  \<^item> An exception is a value: functions that can throw return \<open>error + 'a\<close>.
\<close>

subsection \<open>Numbers and values\<close>

datatype jsnum = Num real | PInf | NInf | NaN

datatype jsval = Undefined | Null | Number jsnum

text \<open>\<open>ToNumber\<close> on the three kinds of value: \<open>undefined\<close> is NaN, \<open>null\<close> is 0.\<close>

fun to_num :: "jsval \<Rightarrow> jsnum" where
  "to_num Undefined = NaN"
| "to_num Null = Num 0"
| "to_num (Number n) = n"

text \<open>\<open>ToBoolean\<close>: \<open>undefined\<close>, \<open>null\<close>, 0 and NaN are falsy.\<close>

fun truthy_num :: "jsnum \<Rightarrow> bool" where
  "truthy_num (Num r) = (r \<noteq> 0)"
| "truthy_num PInf = True"
| "truthy_num NInf = True"
| "truthy_num NaN = False"

fun truthy :: "jsval \<Rightarrow> bool" where
  "truthy Undefined = False"
| "truthy Null = False"
| "truthy (Number n) = truthy_num n"

fun jneg :: "jsnum \<Rightarrow> jsnum" where
  "jneg (Num r) = Num (- r)"
| "jneg PInf = NInf"
| "jneg NInf = PInf"
| "jneg NaN = NaN"

fun jadd :: "jsnum \<Rightarrow> jsnum \<Rightarrow> jsnum" where
  "jadd (Num a) (Num b) = Num (a + b)"
| "jadd NaN _ = NaN"
| "jadd _ NaN = NaN"
| "jadd PInf NInf = NaN"
| "jadd NInf PInf = NaN"
| "jadd PInf _ = PInf"
| "jadd _ PInf = PInf"
| "jadd NInf _ = NInf"
| "jadd _ NInf = NInf"

definition jsub :: "jsnum \<Rightarrow> jsnum \<Rightarrow> jsnum" where
  "jsub x y = jadd x (jneg y)"

text \<open>The sign of a non-NaN number: \<open>True\<close> for negative.\<close>

fun is_neg :: "jsnum \<Rightarrow> bool" where
  "is_neg (Num r) = (r < 0)"
| "is_neg NInf = True"
| "is_neg _ = False"

fun is_pos :: "jsnum \<Rightarrow> bool" where
  "is_pos (Num r) = (0 < r)"
| "is_pos PInf = True"
| "is_pos _ = False"

definition signed_inf :: "bool \<Rightarrow> jsnum" where
  "signed_inf neg = (if neg then NInf else PInf)"

fun jmul :: "jsnum \<Rightarrow> jsnum \<Rightarrow> jsnum" where
  "jmul (Num a) (Num b) = Num (a * b)"
| "jmul NaN _ = NaN"
| "jmul _ NaN = NaN"
| "jmul (Num a) y = (if a = 0 then NaN else signed_inf ((a < 0) \<noteq> is_neg y))"
| "jmul x (Num b) = (if b = 0 then NaN else signed_inf (is_neg x \<noteq> (b < 0)))"
| "jmul x y = signed_inf (is_neg x \<noteq> is_neg y)"

fun jdiv :: "jsnum \<Rightarrow> jsnum \<Rightarrow> jsnum" where
  "jdiv (Num a) (Num b) =
     (if b \<noteq> 0 then Num (a / b)
      else if a = 0 then NaN
      else signed_inf (a < 0))"
| "jdiv NaN _ = NaN"
| "jdiv _ NaN = NaN"
| "jdiv (Num a) _ = Num 0"
| "jdiv x (Num b) = signed_inf (is_neg x \<noteq> (b < 0))"
| "jdiv _ _ = NaN"

text \<open>\<open>Math.sqrt\<close> and \<open>Math.pow(x, 2)\<close>.\<close>

fun jsqrt :: "jsnum \<Rightarrow> jsnum" where
  "jsqrt (Num r) = (if r < 0 then NaN else Num (sqrt r))"
| "jsqrt PInf = PInf"
| "jsqrt NInf = NaN"
| "jsqrt NaN = NaN"

fun jsquare :: "jsnum \<Rightarrow> jsnum" where
  "jsquare (Num r) = Num (r * r)"
| "jsquare PInf = PInf"
| "jsquare NInf = PInf"
| "jsquare NaN = NaN"

text \<open>\<open>a || b\<close> on numbers.\<close>

definition js_or :: "jsnum \<Rightarrow> jsnum \<Rightarrow> jsnum" where
  "js_or a b = (if truthy_num a then a else b)"

subsection \<open>Observations\<close>

type_synonym prices = "string \<Rightarrow> jsval"

record row =
  date :: string
  prices :: prices

datatype error = Error string | TypeError

subsection \<open>\<open>DataProcessor._forwardFill\<close>\<close>

text \<open>
  The inner \<open>assets.forEach\<close>: it updates the copy \<open>newPrices\<close> of the row's prices and
  the object \<open>lastKnown\<close> that lives across rows.
\<close>

fun fillAssets :: "string list \<Rightarrow> prices \<Rightarrow> prices \<Rightarrow> prices \<times> prices" where
  "fillAssets [] newPrices lastKnown = (newPrices, lastKnown)"
| "fillAssets (a # as) newPrices lastKnown =
     (if newPrices a \<noteq> Undefined \<and> newPrices a \<noteq> Null
      then fillAssets as newPrices (lastKnown(a := newPrices a))
      else fillAssets as (newPrices(a := lastKnown a)) lastKnown)"

text \<open>The outer \<open>data.forEach\<close>, pushing one filled row per input row.\<close>

fun fillRows :: "row list \<Rightarrow> string list \<Rightarrow> prices \<Rightarrow> row list \<Rightarrow> row list" where
  "fillRows [] assets lastKnown filled = filled"
| "fillRows (r # rs) assets lastKnown filled =
     (case fillAssets assets (prices r) lastKnown of
        (newPrices, lastKnown') \<Rightarrow>
          fillRows rs assets lastKnown' (filled @ [\<lparr>date = date r, prices = newPrices\<rparr>]))"

definition allDefined :: "string list \<Rightarrow> row \<Rightarrow> bool" where
  "allDefined assets r = list_all (\<lambda>a. prices r a \<noteq> Undefined) assets"

definition forwardFill :: "row list \<Rightarrow> string list \<Rightarrow> row list" where
  "forwardFill data assets =
     filter (allDefined assets) (fillRows data assets (\<lambda>_. Undefined) [])"

subsection \<open>\<open>DataProcessor.process\<close>: rebased index and cumulative return\<close>

type_synonym series = "string \<rightharpoonup> jsnum list"

text \<open>
  The first \<open>assets.forEach\<close> of \<open>process\<close>. Reading \<open>cleanData[0].prices\<close> throws a
  \<open>TypeError\<close> when the clean series is empty.
\<close>

fun rebaseAll :: "row list \<Rightarrow> string list \<Rightarrow> series \<Rightarrow> series \<Rightarrow> error + (series \<times> series)" where
  "rebaseAll cleanData [] reb cum = Inr (reb, cum)"
| "rebaseAll cleanData (a # as) reb cum =
     (case cleanData of
        [] \<Rightarrow> Inl TypeError
      | first # _ \<Rightarrow>
          (let startPrice = to_num (prices first a)
           in rebaseAll cleanData as
                (reb(a \<mapsto> map (\<lambda>r. jmul (jdiv (to_num (prices r a)) startPrice) (Num 100)) cleanData))
                (cum(a \<mapsto> map (\<lambda>r. jsub (jdiv (to_num (prices r a)) startPrice) (Num 1)) cleanData))))"

subsection \<open>\<open>DataProcessor.process\<close>: relative strength\<close>

text \<open>An array read \<open>xs[i]\<close> used as a number: out of range it is \<open>undefined\<close>, so NaN.\<close>

definition nth_num :: "jsnum list \<Rightarrow> nat \<Rightarrow> jsnum" where
  "nth_num xs i = (if i < length xs then xs ! i else NaN)"

text \<open>\<open>xs.map((v, i) => f(v, i))\<close>.\<close>

definition mapi :: "('a \<Rightarrow> nat \<Rightarrow> 'b) \<Rightarrow> 'a list \<Rightarrow> 'b list" where
  "mapi f xs = map (\<lambda>(i, v). f v i) (enumerate 0 xs)"

text \<open>
  \<open>obj[k]\<close> where \<open>k\<close> is \<open>assets[0]\<close>, which is \<open>undefined\<close> for an empty asset list.
\<close>

definition lookupKey :: "series \<Rightarrow> string option \<Rightarrow> jsnum list option" where
  "lookupKey obj k = (case k of None \<Rightarrow> None | Some b \<Rightarrow> obj b)"

text \<open>
  The second \<open>assets.forEach\<close>: \<open>relative[a] = cumRet[a].map((val, i) => val -
  cumRet[baseAsset][i])\<close>. Calling \<open>map\<close> on a missing series, or indexing a missing base
  series inside the callback, throws.
\<close>

fun relativeAll :: "string list \<Rightarrow> string option \<Rightarrow> series \<Rightarrow> series \<Rightarrow> error + series" where
  "relativeAll [] baseAsset cum rel = Inr rel"
| "relativeAll (a # as) baseAsset cum rel =
     (case cum a of
        None \<Rightarrow> Inl TypeError
      | Some ca \<Rightarrow>
          (case lookupKey cum baseAsset of
             None \<Rightarrow> (if ca = [] then relativeAll as baseAsset cum (rel(a \<mapsto> [])) else Inl TypeError)
           | Some cb \<Rightarrow>
               relativeAll as baseAsset cum
                 (rel(a \<mapsto> mapi (\<lambda>v i. jsub v (nth_num cb i)) ca))))"

subsection \<open>\<open>DataProcessor._calculateMonthlyReturns\<close>\<close>

text \<open>
  \<open>monthMap\<close> is a \<open>Map\<close>: its entries are kept in order of first insertion. An entry is
  the key with its \<open>start\<close> and \<open>end\<close> rows.
\<close>

type_synonym monthMap = "(string \<times> row \<times> row) list"

fun setEnd :: "string \<Rightarrow> row \<Rightarrow> monthMap \<Rightarrow> monthMap" where
  "setEnd k r [] = []"
| "setEnd k r ((k', s, e) # m) =
     (if k' = k then (k', s, r) # m else (k', s, e) # setEnd k r m)"

definition monthStep :: "row \<Rightarrow> monthMap \<Rightarrow> monthMap" where
  "monthStep r m =
     (let monthKey = take 7 (date r)
      in if monthKey \<notin> set (map fst m) then m @ [(monthKey, r, r)] else setEnd monthKey r m)"

definition buildMonthMap :: "row list \<Rightarrow> monthMap" where
  "buildMonthMap data = fold monthStep data []"

record monthly =
  x_axis :: "string list"
  y_axis :: "string list"
  z_data :: "jsnum list list"

text \<open>
  \<open>months.forEach(m => monthMap.get(m))\<close> visits the entries of the map in key order, so
  the inner loop runs over the entries themselves.
\<close>

definition monthReturn :: "string \<Rightarrow> row \<Rightarrow> row \<Rightarrow> jsnum" where
  "monthReturn asset start end' =
     (let pStart = to_num (prices start asset);
          pEnd = to_num (prices end' asset);
          ret = jdiv (jsub pEnd pStart) pStart
      in jmul ret (Num 100))"

definition calculateMonthlyReturns :: "row list \<Rightarrow> string list \<Rightarrow> monthly" where
  "calculateMonthlyReturns data assets =
     (let monthMap = buildMonthMap data;
          months = map fst monthMap;
          zData = map (\<lambda>asset. map (\<lambda>(m, start, end'). monthReturn asset start end') monthMap) assets
      in \<lparr>x_axis = months, y_axis = assets, z_data = zData\<rparr>)"

subsection \<open>\<open>DataProcessor._calculateRollingZScore\<close>\<close>

text \<open>\<open>xs.slice(s, e)\<close> for \<open>0 \<le> s\<close>.\<close>

definition slice :: "'a list \<Rightarrow> nat \<Rightarrow> nat \<Rightarrow> 'a list" where
  "slice xs s e = take (e - s) (drop s xs)"

text \<open>
  The body of the \<open>for\<close> loop past the warm-up guard. \<open>logPrices\<close> and \<open>r_t\<close> are
  computed by the source and never used; \<open>Math.log\<close> does not throw.
\<close>

definition zValue :: "jsval list \<Rightarrow> nat \<Rightarrow> nat \<Rightarrow> jsnum" where
  "zValue series window i =
     (let sl = slice series (i - window) i;
          mean = jdiv (foldl (\<lambda>a b. jadd a (to_num b)) (Num 0) sl) (Num (real window));
          variance = jdiv (foldl (\<lambda>a b. jadd a (jsquare (jsub (to_num b) mean))) (Num 0) sl)
                          (Num (real window));
          std = jsqrt variance
      in jdiv (jsub (to_num (series ! i)) mean) (js_or std (Num 1)))"

function zLoop :: "jsval list \<Rightarrow> nat \<Rightarrow> nat \<Rightarrow> jsnum option list \<Rightarrow> jsnum option list" where
  "zLoop series window i zValues =
     (if i < length series
      then (if i < window * 2
            then zLoop series window (i + 1) (zValues @ [None])
            else zLoop series window (i + 1) (zValues @ [Some (zValue series window i)]))
      else zValues)"
  by pat_completeness auto
termination
  by (relation "measure (\<lambda>(series, window, i, zValues). length series - i)") auto

declare zLoop.simps [simp del]

definition calculateRollingZScore ::
  "row list \<Rightarrow> string list \<Rightarrow> nat \<Rightarrow> (string \<rightharpoonup> jsnum option list)" where
  "calculateRollingZScore data assets window =
     fold (\<lambda>asset result. result(asset \<mapsto> zLoop (map (\<lambda>d. prices d asset) data) window 0 []))
       assets Map.empty"

subsection \<open>\<open>DataProcessor.process\<close>: ranks\<close>

text \<open>
  \<open>Array.prototype.sort\<close> with a comparator is stable, and an element \<open>x\<close> moves behind
  \<open>y\<close> exactly when \<open>cmp(x, y) > 0\<close>. It is modelled as the stable insertion sort; for a
  consistent comparator every stable sort returns the same array.
\<close>

fun insertBy :: "('a \<Rightarrow> 'a \<Rightarrow> jsnum) \<Rightarrow> 'a \<Rightarrow> 'a list \<Rightarrow> 'a list" where
  "insertBy cmp x [] = [x]"
| "insertBy cmp x (y # ys) = (if is_pos (cmp x y) then y # insertBy cmp x ys else x # y # ys)"

definition sortBy :: "('a \<Rightarrow> 'a \<Rightarrow> jsnum) \<Rightarrow> 'a list \<Rightarrow> 'a list" where
  "sortBy cmp xs = foldr (insertBy cmp) xs []"

text \<open>\<open>assets.map(a => ({ asset: a, val: rebased[a][i] }))\<close>.\<close>

fun currentPerf :: "string list \<Rightarrow> series \<Rightarrow> nat \<Rightarrow> error + (string \<times> jsnum) list" where
  "currentPerf [] reb i = Inr []"
| "currentPerf (a # as) reb i =
     (case reb a of
        None \<Rightarrow> Inl TypeError
      | Some xs \<Rightarrow>
          (case currentPerf as reb i of
             Inl e \<Rightarrow> Inl e
           | Inr ps \<Rightarrow> Inr ((a, nth_num xs i) # ps)))"

text \<open>The comparator \<open>(x, y) => y.val - x.val\<close>.\<close>

definition byValDesc :: "string \<times> jsnum \<Rightarrow> string \<times> jsnum \<Rightarrow> jsnum" where
  "byValDesc p q = jsub (snd q) (snd p)"

text \<open>\<open>currentPerf.forEach((item, idx) => rankMap[item.asset] = idx + 1)\<close>.\<close>

fun assignRanks :: "(string \<times> jsnum) list \<Rightarrow> nat \<Rightarrow> (string \<rightharpoonup> nat) \<Rightarrow> (string \<rightharpoonup> nat)" where
  "assignRanks [] idx rankMap = rankMap"
| "assignRanks (item # items) idx rankMap =
     assignRanks items (idx + 1) (rankMap(fst item \<mapsto> idx + 1))"

definition rankRow :: "string list \<Rightarrow> series \<Rightarrow> nat \<Rightarrow> error + (string \<rightharpoonup> nat)" where
  "rankRow assets reb i =
     (case currentPerf assets reb i of
        Inl e \<Rightarrow> Inl e
      | Inr perf \<Rightarrow> Inr (assignRanks (sortBy byValDesc perf) 0 Map.empty))"

text \<open>\<open>cleanData.map((row, i) => ...)\<close>; the callback reads only the index.\<close>

fun rankRows :: "string list \<Rightarrow> series \<Rightarrow> nat list \<Rightarrow> error + (string \<rightharpoonup> nat) list" where
  "rankRows assets reb [] = Inr []"
| "rankRows assets reb (i # is) =
     (case rankRow assets reb i of
        Inl e \<Rightarrow> Inl e
      | Inr m \<Rightarrow>
          (case rankRows assets reb is of
             Inl e \<Rightarrow> Inl e
           | Inr ms \<Rightarrow> Inr (m # ms)))"

subsection \<open>\<open>DataProcessor.process\<close>\<close>

record processed =
  dates :: "string list"
  aligned :: "row list"
  rebased :: series
  cumRet :: series
  relative :: series
  monthlyReturns :: monthly
  zScores :: "string \<rightharpoonup> jsnum option list"
  ranks :: "(string \<rightharpoonup> nat) list"
  baseAsset :: "string option"

text \<open>
  \<open>process\<close> returns \<open>null\<close> (\<open>Inr None\<close>) for a raw series without observations, the
  processed model otherwise, unless a step throws. The field \<open>prices\<close> of the result is
  called \<open>aligned\<close> here.
\<close>

definition process :: "row list \<Rightarrow> string list \<Rightarrow> error + processed option" where
  "process rawData assets =
     (if rawData = [] then Inr None
      else
        (let cleanData = forwardFill rawData assets;
             ds = map date cleanData
         in case rebaseAll cleanData assets Map.empty Map.empty of
              Inl e \<Rightarrow> Inl e
            | Inr (reb, cum) \<Rightarrow>
                (let base = (case assets of [] \<Rightarrow> None | a # _ \<Rightarrow> Some a)
                 in case relativeAll assets base cum Map.empty of
                      Inl e \<Rightarrow> Inl e
                    | Inr rel \<Rightarrow>
                        (let monthlyRet = calculateMonthlyReturns cleanData assets;
                             zs = calculateRollingZScore cleanData assets 20
                         in case rankRows assets reb [0..<length cleanData] of
                              Inl e \<Rightarrow> Inl e
                            | Inr rks \<Rightarrow>
                                Inr (Some \<lparr>dates = ds, aligned = cleanData, rebased = reb,
                                           cumRet = cum, relative = rel,
                                           monthlyReturns = monthlyRet, zScores = zs,
                                           ranks = rks, baseAsset = base\<rparr>)))))"

subsection \<open>\<open>DataFetcher._processFiatResponse\<close>\<close>

text \<open>
  The rate set of one date: \<open>rates[asset]\<close> is \<open>undefined\<close> for a currency that is not
  listed. The object \<open>data.rates\<close> is given by its entries, one per date key; the keys of
  an object are distinct.
\<close>

type_synonym rateSet = "string \<Rightarrow> jsval"

text \<open>
  The inner \<open>assets.forEach\<close>, filling the object \<open>prices\<close>. The test
  \<open>else if (rates[asset])\<close> is a truthiness test.
\<close>

fun fiatPrices :: "string list \<Rightarrow> rateSet \<Rightarrow> string \<Rightarrow> prices \<Rightarrow> prices" where
  "fiatPrices [] rates base pr = pr"
| "fiatPrices (asset # as) rates base pr =
     fiatPrices as rates base
       (pr(asset :=
             (if asset = base then Number (Num 1)
              else if truthy (rates asset) then Number (jdiv (Num 1) (to_num (rates asset)))
              else Null)))"

text \<open>
  \<open>Object.keys(data.rates).sort()\<close> orders the date keys by their code units; each
  date is then mapped to its observation, so the entries are visited in key order.
\<close>

definition processFiatResponse :: "(string \<times> rateSet) list \<Rightarrow> string list \<Rightarrow> string \<Rightarrow> row list" where
  "processFiatResponse rates assets base =
     map (\<lambda>(d, rs). \<lparr>date = d, prices = fiatPrices assets rs base (\<lambda>_. Undefined)\<rparr>)
       (sort_key fst rates)"

subsection \<open>String built-ins\<close>

text \<open>\<open>toUpperCase()\<close> on ASCII text.\<close>

definition upperChar :: "char \<Rightarrow> char" where
  "upperChar c =
     (if CHR ''a'' \<le> c \<and> c \<le> CHR ''z'' then char_of (of_char c - (32 :: nat)) else c)"

definition toUpperCase :: "string \<Rightarrow> string" where
  "toUpperCase s = map upperChar s"

subsection \<open>\<open>DataFetcher.fetchCrypto\<close> and \<open>_processCryptoResponse\<close>\<close>

text \<open>
  A candle is kept as the two fields the code reads: the open time \<open>kline[0]\<close> in
  milliseconds and the close price \<open>parseFloat(kline[4])\<close>. The request of one asset
  either throws (the network fails, or the body is no JSON), answers with a status that
  is not ok, or answers with the candles.
\<close>

type_synonym kline = "int \<times> jsnum"

datatype response = Threw | NotOk | Klines "kline list"

definition endsWith :: "string \<Rightarrow> string \<Rightarrow> bool" where
  "endsWith s suffix =
     (length suffix \<le> length s \<and> drop (length s - length suffix) s = suffix)"

definition symbolOf :: "string \<Rightarrow> string" where
  "symbolOf asset = (if endsWith (toUpperCase asset) ''USDT'' then asset else asset @ ''USDT'')"

text \<open>
  One element of \<open>promises\<close>: the \<open>try\<close> block with its two silent failures. The network
  is a function from the requested symbol to the response (the time window is fixed for
  one call of \<open>fetchCrypto\<close>).
\<close>

definition fetchOne :: "(string \<Rightarrow> response) \<Rightarrow> string \<Rightarrow> string \<times> kline list" where
  "fetchOne net asset =
     (case net (symbolOf asset) of
        Threw \<Rightarrow> (asset, [])
      | NotOk \<Rightarrow> (asset, [])
      | Klines klines \<Rightarrow> (asset, klines))"

text \<open>
  The \<open>Map\<close> from date string to observation keeps its entries in order of first
  insertion; \<open>map.get(dateStr).prices[asset] = close\<close> updates the entry in place.
\<close>

fun setPrice :: "string \<Rightarrow> string \<Rightarrow> jsnum \<Rightarrow> row list \<Rightarrow> row list" where
  "setPrice dateStr asset cl [] = []"
| "setPrice dateStr asset cl (r # rs) =
     (if date r = dateStr
      then r\<lparr>prices := (prices r)(asset := Number cl)\<rparr> # rs
      else r # setPrice dateStr asset cl rs)"

text \<open>
  The body of the inner \<open>data.forEach\<close>. \<open>isoDate t\<close> stands for
  \<open>new Date(t).toISOString().split('T')[0]\<close>, the calendar date (UTC) of a valid time
  stamp.
\<close>

definition klineStep :: "(int \<Rightarrow> string) \<Rightarrow> string \<Rightarrow> kline \<Rightarrow> row list \<Rightarrow> row list" where
  "klineStep isoDate asset k m =
     (let t = fst k;
          cl = snd k;
          dateStr = isoDate t;
          m' = (if dateStr \<notin> set (map date m)
                then m @ [\<lparr>date = dateStr, prices = (\<lambda>_. Undefined)\<rparr>]
                else m)
      in setPrice dateStr asset cl m')"

definition resultStep :: "(int \<Rightarrow> string) \<Rightarrow> string \<times> kline list \<Rightarrow> row list \<Rightarrow> row list" where
  "resultStep isoDate res m = fold (klineStep isoDate (fst res)) (snd res) m"

text \<open>\<open>a.localeCompare(b)\<close> on date strings: the order of their code units.\<close>

definition localeCompare :: "string \<Rightarrow> string \<Rightarrow> jsnum" where
  "localeCompare a b = (if a < b then Num (- 1) else if a = b then Num 0 else Num 1)"

definition processCryptoResponse :: "(int \<Rightarrow> string) \<Rightarrow> (string \<times> kline list) list \<Rightarrow> row list" where
  "processCryptoResponse isoDate results =
     sortBy (\<lambda>a b. localeCompare (date a) (date b)) (fold (resultStep isoDate) results [])"

text \<open>\<open>Promise.all\<close> keeps the order of the assets.\<close>

definition fetchCrypto :: "(int \<Rightarrow> string) \<Rightarrow> (string \<Rightarrow> response) \<Rightarrow> string list \<Rightarrow> row list" where
  "fetchCrypto isoDate net assets = processCryptoResponse isoDate (map (fetchOne net) assets)"

subsection \<open>\<open>app.run\<close>\<close>

text \<open>
  The other string built-ins that \<open>run\<close> applies to the asset input, on ASCII text:
  \<open>split(',')\<close> and \<open>trim()\<close>. White space here is tab, line feed, vertical tab, form
  feed, carriage return and the space.
\<close>

fun splitOn :: "char \<Rightarrow> string \<Rightarrow> string list" where
  "splitOn c [] = [[]]"
| "splitOn c (x # xs) =
     (if x = c then [] # splitOn c xs
      else (case splitOn c xs of
              [] \<Rightarrow> [[x]]
            | w # ws \<Rightarrow> (x # w) # ws))"

definition isSpace :: "char \<Rightarrow> bool" where
  "isSpace c = (c \<in> {CHR 0x09, CHR 0x0A, CHR 0x0B, CHR 0x0C, CHR 0x0D, CHR '' ''})"

definition trim :: "string \<Rightarrow> string" where
  "trim s = rev (dropWhile isSpace (rev (dropWhile isSpace s)))"

text \<open>
  \<open>assetsStr.split(',').map(s => s.trim().toUpperCase()).filter(Boolean)\<close>: the empty
  string is the only falsy string.
\<close>

definition parseAssets :: "string \<Rightarrow> string list" where
  "parseAssets assetsStr =
     filter (\<lambda>s. s \<noteq> []) (map (\<lambda>s. toUpperCase (trim s)) (splitOn CHR '','' assetsStr))"

text \<open>
  What \<open>run\<close> does is recorded as the list of its effects, in order: a status line, the
  call of \<open>fetcher.fetch\<close>, the error shown by the \<open>catch\<close> block
  (\<open>setStatus(`Error: ...`, 'error')\<close>), the base-asset label, the six chart renderings
  and the final status. The outcome of the fetch (the resolved series or the thrown
  error) is a parameter, and so is the look-back that \<open>run\<close> reads from the page.
\<close>

datatype event =
    SetStatus string string
  | FetchCall string "string list" jsnum
  | ErrorShown error
  | BaseName "string option"
  | Rendered
  | Updated

definition run ::
  "(string \<Rightarrow> string list \<Rightarrow> jsnum \<Rightarrow> error + row list) \<Rightarrow> string \<Rightarrow> string \<Rightarrow> jsnum \<Rightarrow> event list" where
  "run fetch source assetsStr lookback =
     (let start = [SetStatus ''Fetching data...'' ''loading''];
          assets = parseAssets assetsStr
      in if length assets < 2
         then start @ [ErrorShown (Error ''Please provide at least 2 assets.'')]
         else
           (let called = start @ [FetchCall source assets lookback]
            in case fetch source assets lookback of
                 Inl e \<Rightarrow> called @ [ErrorShown e]
               | Inr rawData \<Rightarrow>
                   if rawData = [] then called @ [ErrorShown (Error ''No data returned.'')]
                   else
                     (let processing = called @ [SetStatus ''Processing...'' ''loading'']
                      in case process rawData assets of
                           Inl e \<Rightarrow> processing @ [ErrorShown e]
                         | Inr None \<Rightarrow> processing @ [ErrorShown TypeError]
                         | Inr (Some m) \<Rightarrow>
                             processing @ [BaseName (baseAsset m),
                                           SetStatus ''Rendering...'' ''normal'',
                                           Rendered, Updated])))"

text \<open>The error the specification calls \<open>InsufficientAssetsError\<close>.\<close>

definition InsufficientAssetsError :: error where
  "InsufficientAssetsError = Error ''Please provide at least 2 assets.''"

section \<open>Properties of the pipeline\<close>

subsection \<open>Forward fill: invariants\<close>

lemma fillAssets_Null:
  "\<forall>k. lk k \<noteq> Null \<Longrightarrow> fst (fillAssets as np lk) a = Null \<Longrightarrow> np a = Null \<and> a \<notin> set as"
proof (induction as arbitrary: np lk)
  case Nil
  then show ?case by simp
next
  case (Cons b bs)
  show ?case
  proof (cases "np b \<noteq> Undefined \<and> np b \<noteq> Null")
    case True
    then have lk': "\<forall>k. (lk(b := np b)) k \<noteq> Null"
      using Cons.prems(1) by simp
    from True Cons.prems(2) have "fst (fillAssets bs np (lk(b := np b))) a = Null"
      by simp
    from Cons.IH[OF lk' this] True show ?thesis by auto
  next
    case False
    with Cons.prems(2) have "fst (fillAssets bs (np(b := lk b)) lk) a = Null"
      by auto
    from Cons.IH[OF Cons.prems(1) this] Cons.prems(1) show ?thesis
      by (auto split: if_splits)
  qed
qed

lemma fillAssets_lastKnown:
  "\<forall>k. lk k \<noteq> Null \<Longrightarrow> snd (fillAssets as np lk) k \<noteq> Null"
proof (induction as arbitrary: np lk)
  case Nil
  then show ?case by simp
next
  case (Cons b bs)
  show ?case
  proof (cases "np b \<noteq> Undefined \<and> np b \<noteq> Null")
    case True
    then have "\<forall>k. (lk(b := np b)) k \<noteq> Null"
      using Cons.prems by simp
    then have "snd (fillAssets bs np (lk(b := np b))) k \<noteq> Null"
      by (rule Cons.IH)
    with True show ?thesis by simp
  next
    case False
    have "snd (fillAssets bs (np(b := lk b)) lk) k \<noteq> Null"
      using Cons.prems by (rule Cons.IH)
    with False show ?thesis by auto
  qed
qed

definition allKnown :: "string list \<Rightarrow> row \<Rightarrow> bool" where
  "allKnown assets r = list_all (\<lambda>a. prices r a \<noteq> Undefined \<and> prices r a \<noteq> Null) assets"

lemma fillRows_no_Null:
  "\<forall>k. lk k \<noteq> Null \<Longrightarrow>
   \<forall>r \<in> set filled. \<forall>a \<in> set assets. prices r a \<noteq> Null \<Longrightarrow>
   \<forall>r \<in> set (fillRows data assets lk filled). \<forall>a \<in> set assets. prices r a \<noteq> Null"
proof (induction data arbitrary: lk filled)
  case Nil
  then show ?case by simp
next
  case (Cons r rs)
  obtain np lk' where f: "fillAssets assets (prices r) lk = (np, lk')"
    by (cases "fillAssets assets (prices r) lk") auto
  have lk': "\<forall>k. lk' k \<noteq> Null"
    using fillAssets_lastKnown[OF Cons.prems(1), of assets "prices r"] f by simp
  have np: "\<forall>a \<in> set assets. np a \<noteq> Null"
    using fillAssets_Null[OF Cons.prems(1), of assets "prices r"] f by auto
  have "\<forall>q \<in> set (filled @ [\<lparr>date = date r, prices = np\<rparr>]). \<forall>a \<in> set assets. prices q a \<noteq> Null"
    using Cons.prems(2) np by auto
  from Cons.IH[OF lk' this] f show ?case by simp
qed

lemma forwardFill_complete:
  "r \<in> set (forwardFill data assets) \<Longrightarrow> allKnown assets r"
proof -
  assume r: "r \<in> set (forwardFill data assets)"
  have "\<forall>q \<in> set (fillRows data assets (\<lambda>_. Undefined) []). \<forall>a \<in> set assets. prices q a \<noteq> Null"
    by (rule fillRows_no_Null) simp_all
  with r show ?thesis
    by (auto simp: forwardFill_def allKnown_def allDefined_def list_all_iff)
qed

lemma fillAssets_complete:
  "list_all (\<lambda>a. np a \<noteq> Undefined \<and> np a \<noteq> Null) as \<Longrightarrow> fst (fillAssets as np lk) = np"
  by (induction as arbitrary: lk) auto

lemma fillRows_complete:
  "list_all (allKnown assets) data \<Longrightarrow> fillRows data assets lk filled = filled @ data"
proof (induction data arbitrary: lk filled)
  case Nil
  then show ?case by simp
next
  case (Cons r rs)
  obtain np lk' where f: "fillAssets assets (prices r) lk = (np, lk')"
    by (cases "fillAssets assets (prices r) lk") auto
  have "np = prices r"
    using fillAssets_complete[of "prices r" assets lk] Cons.prems f
    by (simp add: allKnown_def)
  with Cons f show ?case by simp
qed

lemma forwardFill_of_complete:
  "list_all (allKnown assets) data \<Longrightarrow> forwardFill data assets = data"
proof -
  assume c: "list_all (allKnown assets) data"
  then have "\<forall>r \<in> set data. allDefined assets r"
    by (auto simp: list_all_iff allKnown_def allDefined_def)
  then have "filter (allDefined assets) data = data"
    by (simp add: filter_id_conv)
  with c show ?thesis
    by (simp add: forwardFill_def fillRows_complete)
qed

lemma fillAssets_absent:
  "lk a = Undefined \<Longrightarrow> np a = Undefined \<or> np a = Null \<Longrightarrow>
   snd (fillAssets as np lk) a = Undefined \<and>
   fst (fillAssets as np lk) a = (if a \<in> set as then Undefined else np a)"
proof (induction as arbitrary: np lk)
  case Nil
  then show ?case by simp
next
  case (Cons b bs)
  show ?case
  proof (cases "np b \<noteq> Undefined \<and> np b \<noteq> Null")
    case True
    with Cons.prems have ba: "b \<noteq> a" by auto
    then have "(lk(b := np b)) a = Undefined" using Cons.prems(1) by simp
    then have "snd (fillAssets bs np (lk(b := np b))) a = Undefined \<and>
      fst (fillAssets bs np (lk(b := np b))) a = (if a \<in> set bs then Undefined else np a)"
      using Cons.prems(2) by (rule Cons.IH)
    with True ba show ?thesis by simp
  next
    case False
    have "(np(b := lk b)) a = Undefined \<or> (np(b := lk b)) a = Null"
      using Cons.prems by auto
    with Cons.prems(1) have "snd (fillAssets bs (np(b := lk b)) lk) a = Undefined \<and>
      fst (fillAssets bs (np(b := lk b)) lk) a =
        (if a \<in> set bs then Undefined else (np(b := lk b)) a)"
      by (rule Cons.IH)
    with False Cons.prems(1) show ?thesis by auto
  qed
qed

lemma fillRows_absent:
  "a \<in> set assets \<Longrightarrow> lk a = Undefined \<Longrightarrow>
   \<forall>r \<in> set data. prices r a = Undefined \<or> prices r a = Null \<Longrightarrow>
   \<forall>r \<in> set filled. prices r a = Undefined \<Longrightarrow>
   \<forall>r \<in> set (fillRows data assets lk filled). prices r a = Undefined"
proof (induction data arbitrary: lk filled)
  case Nil
  then show ?case by simp
next
  case (Cons r rs)
  obtain np lk' where f: "fillAssets assets (prices r) lk = (np, lk')"
    by (cases "fillAssets assets (prices r) lk") auto
  have pr: "prices r a = Undefined \<or> prices r a = Null"
    using Cons.prems(3) by simp
  have lk': "lk' a = Undefined" and np: "np a = Undefined"
    using fillAssets_absent[of lk a "prices r" assets, OF Cons.prems(2) pr] f Cons.prems(1)
    by simp_all
  have rest: "\<forall>q \<in> set rs. prices q a = Undefined \<or> prices q a = Null"
    using Cons.prems(3) by simp
  have "\<forall>q \<in> set (filled @ [\<lparr>date = date r, prices = np\<rparr>]). prices q a = Undefined"
    using Cons.prems(4) np by auto
  with Cons.prems(1) lk' rest
  have "\<forall>q \<in> set (fillRows rs assets lk' (filled @ [\<lparr>date = date r, prices = np\<rparr>])).
          prices q a = Undefined"
    by (rule Cons.IH)
  with f show ?case by simp
qed

lemma forwardFill_absent:
  assumes "a \<in> set assets"
    and "\<forall>r \<in> set data. prices r a = Undefined \<or> prices r a = Null"
  shows "forwardFill data assets = []"
proof -
  have "\<forall>r \<in> set (fillRows data assets (\<lambda>_. Undefined) []). prices r a = Undefined"
    using assms by (intro fillRows_absent) simp_all
  then have "\<forall>r \<in> set (fillRows data assets (\<lambda>_. Undefined) []). \<not> allDefined assets r"
    using assms(1) by (auto simp: allDefined_def list_all_iff)
  then show ?thesis
    by (simp add: forwardFill_def filter_empty_conv)
qed

subsection \<open>\<open>process\<close>: the model it returns\<close>

lemma rebaseAll_empty:
  "as \<noteq> [] \<Longrightarrow> rebaseAll [] as reb cum = Inl TypeError"
  by (cases as) simp_all

definition rebasedOf :: "row list \<Rightarrow> string \<Rightarrow> jsnum list" where
  "rebasedOf clean a =
     map (\<lambda>r. jmul (jdiv (to_num (prices r a)) (to_num (prices (hd clean) a))) (Num 100)) clean"

definition cumRetOf :: "row list \<Rightarrow> string \<Rightarrow> jsnum list" where
  "cumRetOf clean a =
     map (\<lambda>r. jsub (jdiv (to_num (prices r a)) (to_num (prices (hd clean) a))) (Num 1)) clean"

lemma rebaseAll_closed:
  "clean \<noteq> [] \<Longrightarrow>
   rebaseAll clean as reb cum =
     Inr (\<lambda>k. if k \<in> set as then Some (rebasedOf clean k) else reb k,
          \<lambda>k. if k \<in> set as then Some (cumRetOf clean k) else cum k)"
proof (induction as arbitrary: reb cum)
  case Nil
  then show ?case by simp
next
  case (Cons a as)
  then obtain first rest where c: "clean = first # rest" by (cases clean) auto
  have "rebaseAll clean (a # as) reb cum =
        rebaseAll clean as (reb(a \<mapsto> rebasedOf clean a)) (cum(a \<mapsto> cumRetOf clean a))"
    by (simp add: c rebasedOf_def cumRetOf_def Let_def)
  also have "\<dots> = Inr (\<lambda>k. if k \<in> set as then Some (rebasedOf clean k) else (reb(a \<mapsto> rebasedOf clean a)) k,
          \<lambda>k. if k \<in> set as then Some (cumRetOf clean k) else (cum(a \<mapsto> cumRetOf clean a)) k)"
    by (rule Cons.IH[OF Cons.prems])
  also have "\<dots> = Inr (\<lambda>k. if k \<in> set (a # as) then Some (rebasedOf clean k) else reb k,
          \<lambda>k. if k \<in> set (a # as) then Some (cumRetOf clean k) else cum k)"
    by (auto simp: fun_eq_iff)
  finally show ?case .
qed

lemma relativeAll_closed:
  assumes "\<forall>k \<in> set as. cum k = Some (f k)" and "cum b = Some cb"
  shows "relativeAll as (Some b) cum rel =
           Inr (\<lambda>k. if k \<in> set as then Some (mapi (\<lambda>v i. jsub v (nth_num cb i)) (f k)) else rel k)"
  using assms(1)
proof (induction as arbitrary: rel)
  case Nil
  then show ?case by simp
next
  case (Cons a as)
  let ?g = "\<lambda>k. mapi (\<lambda>v i. jsub v (nth_num cb i)) (f k)"
  have a: "cum a = Some (f a)" and rest: "\<forall>k \<in> set as. cum k = Some (f k)"
    using Cons.prems by simp_all
  have "relativeAll (a # as) (Some b) cum rel = relativeAll as (Some b) cum (rel(a \<mapsto> ?g a))"
    using a assms(2) by (simp add: lookupKey_def)
  also have "\<dots> = Inr (\<lambda>k. if k \<in> set as then Some (?g k) else (rel(a \<mapsto> ?g a)) k)"
    using rest by (rule Cons.IH)
  also have "\<dots> = Inr (\<lambda>k. if k \<in> set (a # as) then Some (?g k) else rel k)"
    by (auto simp: fun_eq_iff)
  finally show ?case .
qed

lemma currentPerf_closed:
  "\<forall>k \<in> set as. reb k = Some (f k) \<Longrightarrow>
   currentPerf as reb i = Inr (map (\<lambda>a. (a, nth_num (f a) i)) as)"
  by (induction as) simp_all

definition perfOf :: "row list \<Rightarrow> string list \<Rightarrow> nat \<Rightarrow> (string \<times> jsnum) list" where
  "perfOf clean assets i = map (\<lambda>a. (a, nth_num (rebasedOf clean a) i)) assets"

definition rankMapOf :: "row list \<Rightarrow> string list \<Rightarrow> nat \<Rightarrow> (string \<rightharpoonup> nat)" where
  "rankMapOf clean assets i = assignRanks (sortBy byValDesc (perfOf clean assets i)) 0 Map.empty"

lemma rankRows_closed:
  "\<forall>k \<in> set assets. reb k = Some (rebasedOf clean k) \<Longrightarrow>
   rankRows assets reb is = Inr (map (rankMapOf clean assets) is)"
proof (induction "is")
  case Nil
  then show ?case by simp
next
  case (Cons i js)
  have "currentPerf assets reb i = Inr (perfOf clean assets i)"
    using Cons.prems by (simp add: currentPerf_closed perfOf_def)
  then have "rankRow assets reb i = Inr (rankMapOf clean assets i)"
    by (simp add: rankRow_def rankMapOf_def)
  with Cons show ?case by simp
qed

definition relativeOf :: "row list \<Rightarrow> string \<Rightarrow> string \<Rightarrow> jsnum list" where
  "relativeOf clean b a = mapi (\<lambda>v i. jsub v (nth_num (cumRetOf clean b) i)) (cumRetOf clean a)"

definition modelOf :: "row list \<Rightarrow> string list \<Rightarrow> processed" where
  "modelOf clean assets =
     \<lparr>dates = map date clean, aligned = clean,
      rebased = (\<lambda>k. if k \<in> set assets then Some (rebasedOf clean k) else None),
      cumRet = (\<lambda>k. if k \<in> set assets then Some (cumRetOf clean k) else None),
      relative = (\<lambda>k. if k \<in> set assets then Some (relativeOf clean (hd assets) k) else None),
      monthlyReturns = calculateMonthlyReturns clean assets,
      zScores = calculateRollingZScore clean assets 20,
      ranks = map (rankMapOf clean assets) [0..<length clean],
      baseAsset = (case assets of [] \<Rightarrow> None | a # _ \<Rightarrow> Some a)\<rparr>"

lemma process_ok:
  assumes "rawData \<noteq> []" and "forwardFill rawData assets \<noteq> []"
  shows "process rawData assets = Inr (Some (modelOf (forwardFill rawData assets) assets))"
proof -
  let ?c = "forwardFill rawData assets"
  let ?reb = "\<lambda>k. if k \<in> set assets then Some (rebasedOf ?c k) else None"
  let ?cum = "\<lambda>k. if k \<in> set assets then Some (cumRetOf ?c k) else None"
  have r: "rebaseAll ?c assets Map.empty Map.empty = Inr (?reb, ?cum)"
    using rebaseAll_closed[OF assms(2)] by simp
  have rk: "rankRows assets ?reb [0..<length ?c] = Inr (map (rankMapOf ?c assets) [0..<length ?c])"
    by (rule rankRows_closed) simp
  show ?thesis
  proof (cases assets)
    case Nil
    then show ?thesis
      using assms(1) r rk by (simp add: process_def modelOf_def Let_def)
  next
    case (Cons b bs)
    have hdb: "hd assets = b" and base: "(case assets of [] \<Rightarrow> None | a # _ \<Rightarrow> Some a) = Some b"
      using Cons by simp_all
    have rel: "relativeAll assets (Some b) ?cum Map.empty =
            Inr (\<lambda>k. if k \<in> set assets then Some (relativeOf ?c (hd assets) k) else None)"
      unfolding relativeOf_def hdb
      by (rule relativeAll_closed) (simp_all add: Cons)
    show ?thesis
      using assms(1) by (simp add: process_def modelOf_def Let_def r rk rel base)
  qed
qed

lemma process_fail:
  assumes "rawData \<noteq> []" and "assets \<noteq> []" and "forwardFill rawData assets = []"
  shows "process rawData assets = Inl TypeError"
  using assms by (simp add: process_def rebaseAll_empty)

subsection \<open>Forward fill: idempotence and the empty clean series\<close>

text \<open>
  C5. Forward fill is idempotent: for every raw series and every asset list, running
  \<open>_forwardFill\<close> on the clean series it produced returns that clean series itself, with
  the same dates in the same order and the same prices.
\<close>

theorem forwardFill_idempotent:
  "forwardFill (forwardFill data assets) assets = forwardFill data assets"
proof -
  have "list_all (allKnown assets) (forwardFill data assets)"
    using forwardFill_complete by (auto simp: list_all_iff)
  then show ?thesis by (rule forwardFill_of_complete)
qed

text \<open>
  C10. A non-empty raw series can leave the clean series empty: whenever some requested
  asset has an absent price (\<open>undefined\<close> or \<open>null\<close>) on every date of a non-empty raw
  series, forward fill drops every row, and \<open>process\<close> returns neither \<open>null\<close> nor a
  processed model: it throws a \<open>TypeError\<close> when it reads \<open>cleanData[0].prices\<close>,
  because the \<open>null\<close> branch tests the raw series only.
\<close>

theorem process_throws_on_empty_clean:
  assumes "rawData \<noteq> []"
    and "a \<in> set assets"
    and "\<forall>r \<in> set rawData. prices r a = Undefined \<or> prices r a = Null"
  shows "forwardFill rawData assets = [] \<and> process rawData assets = Inl TypeError"
proof -
  have e: "forwardFill rawData assets = []"
    using assms(2,3) by (rule forwardFill_absent)
  moreover have "assets \<noteq> []"
    using assms(2) by auto
  ultimately show ?thesis
    using assms(1) by (simp add: process_fail)
qed

theorem process_throws_on_empty_clean_witness:
  "[\<lparr>date = ''2023-01-01'', prices = (\<lambda>_. Undefined)(''BTC'' := Number (Num 5))\<rparr>,
    \<lparr>date = ''2023-01-02'', prices = (\<lambda>_. Undefined)(''BTC'' := Number (Num 6), ''ETH'' := Null)\<rparr>] \<noteq> []
   \<and> forwardFill
        [\<lparr>date = ''2023-01-01'', prices = (\<lambda>_. Undefined)(''BTC'' := Number (Num 5))\<rparr>,
         \<lparr>date = ''2023-01-02'', prices = (\<lambda>_. Undefined)(''BTC'' := Number (Num 6), ''ETH'' := Null)\<rparr>]
        [''BTC'', ''ETH''] = []
   \<and> process
        [\<lparr>date = ''2023-01-01'', prices = (\<lambda>_. Undefined)(''BTC'' := Number (Num 5))\<rparr>,
         \<lparr>date = ''2023-01-02'', prices = (\<lambda>_. Undefined)(''BTC'' := Number (Num 6), ''ETH'' := Null)\<rparr>]
        [''BTC'', ''ETH''] = Inl TypeError"
  using process_throws_on_empty_clean
    [of "[\<lparr>date = ''2023-01-01'', prices = (\<lambda>_. Undefined)(''BTC'' := Number (Num 5))\<rparr>,
          \<lparr>date = ''2023-01-02'', prices = (\<lambda>_. Undefined)(''BTC'' := Number (Num 6), ''ETH'' := Null)\<rparr>]"
        "''ETH''" "[''BTC'', ''ETH'']"]
  by simp

subsection \<open>Rebased index, cumulative return and relative strength\<close>

lemma length_mapi: "length (mapi f xs) = length xs"
  by (simp add: mapi_def)

lemma nth_mapi: "i < length xs \<Longrightarrow> mapi f xs ! i = f (xs ! i) i"
  by (simp add: mapi_def nth_enumerate_eq)

lemma jdiv_self: "r \<noteq> 0 \<Longrightarrow> jdiv (Num r) (Num r) = Num 1"
  by simp

lemma jsub_Num: "jsub (Num a) (Num b) = Num (a - b)"
  by (simp add: jsub_def)

lemma rebasedOf_nth:
  "t < length clean \<Longrightarrow>
   rebasedOf clean a ! t =
     jmul (jdiv (to_num (prices (clean ! t) a)) (to_num (prices (clean ! 0) a))) (Num 100)"
proof -
  assume t: "t < length clean"
  then have "hd clean = clean ! 0" by (intro hd_conv_nth) auto
  with t show ?thesis by (simp add: rebasedOf_def)
qed

lemma cumRetOf_nth:
  "t < length clean \<Longrightarrow>
   cumRetOf clean a ! t =
     jsub (jdiv (to_num (prices (clean ! t) a)) (to_num (prices (clean ! 0) a))) (Num 1)"
proof -
  assume t: "t < length clean"
  then have "hd clean = clean ! 0" by (intro hd_conv_nth) auto
  with t show ?thesis by (simp add: cumRetOf_def)
qed

lemma length_rebasedOf: "length (rebasedOf clean a) = length clean"
  by (simp add: rebasedOf_def)

lemma length_cumRetOf: "length (cumRetOf clean a) = length clean"
  by (simp add: cumRetOf_def)

text \<open>
  C6 (as amended). For every non-empty clean series and every requested asset,
  \<open>process\<close> returns a model whose rebased and cumulative-return series have the length
  of the clean series, with \<open>rebased[t] = (price[t] / price[0]) * 100\<close> and
  \<open>cumRet[t] = (price[t] / price[0]) - 1\<close> at every index \<open>t\<close>; the rebased series starts
  at exactly 100 and the cumulative return at exactly 0 whenever the asset's first clean
  price is a finite number other than 0.
\<close>

theorem rebased_cumRet_formula:
  assumes "forwardFill rawData assets \<noteq> []" and "a \<in> set assets"
  shows "\<exists>m xs ys.
           process rawData assets = Inr (Some m)
         \<and> aligned m = forwardFill rawData assets
         \<and> rebased m a = Some xs \<and> cumRet m a = Some ys
         \<and> length xs = length (aligned m) \<and> length ys = length (aligned m)
         \<and> (\<forall>t < length (aligned m).
               xs ! t = jmul (jdiv (to_num (prices (aligned m ! t) a))
                                   (to_num (prices (aligned m ! 0) a))) (Num 100)
             \<and> ys ! t = jsub (jdiv (to_num (prices (aligned m ! t) a))
                                   (to_num (prices (aligned m ! 0) a))) (Num 1))
         \<and> (\<forall>p. prices (aligned m ! 0) a = Number (Num p) \<and> p \<noteq> 0
               \<longrightarrow> xs ! 0 = Num 100 \<and> ys ! 0 = Num 0)"
proof -
  let ?c = "forwardFill rawData assets"
  let ?m = "modelOf ?c assets"
  have raw: "rawData \<noteq> []"
    using assms(1) by (auto simp: forwardFill_def)
  have p: "process rawData assets = Inr (Some ?m)"
    using raw assms(1) by (rule process_ok)
  have al: "aligned ?m = ?c"
    by (simp add: modelOf_def)
  have rb: "rebased ?m a = Some (rebasedOf ?c a)" and cr: "cumRet ?m a = Some (cumRetOf ?c a)"
    using assms(2) by (simp_all add: modelOf_def)
  have pos: "0 < length ?c"
    using assms(1) by simp
  have start: "\<forall>p. prices (?c ! 0) a = Number (Num p) \<and> p \<noteq> 0
                 \<longrightarrow> rebasedOf ?c a ! 0 = Num 100 \<and> cumRetOf ?c a ! 0 = Num 0"
    using pos by (simp add: rebasedOf_nth cumRetOf_nth jsub_Num)
  show ?thesis
    using p al rb cr start
    by (intro exI[of _ ?m] exI[of _ "rebasedOf ?c a"] exI[of _ "cumRetOf ?c a"])
       (simp add: length_rebasedOf length_cumRetOf rebasedOf_nth cumRetOf_nth)
qed

theorem rebased_cumRet_formula_witness:
  "\<exists>m xs ys.
     process
       [\<lparr>date = ''2023-01-02'', prices = (\<lambda>_. Undefined)(''USD'' := Number (Num 1), ''EUR'' := Number (Num 2))\<rparr>,
        \<lparr>date = ''2023-01-03'', prices = (\<lambda>_. Undefined)(''USD'' := Number (Num 1), ''EUR'' := Number (Num 3))\<rparr>]
       [''USD'', ''EUR''] = Inr (Some m)
   \<and> rebased m ''EUR'' = Some xs \<and> cumRet m ''EUR'' = Some ys
   \<and> length xs = 2 \<and> length ys = 2
   \<and> xs ! 0 = Num 100 \<and> xs ! 1 = Num 150 \<and> ys ! 0 = Num 0 \<and> ys ! 1 = Num (1 / 2)"
proof -
  let ?R = "[\<lparr>date = ''2023-01-02'', prices = (\<lambda>_. Undefined)(''USD'' := Number (Num 1), ''EUR'' := Number (Num 2))\<rparr>,
        \<lparr>date = ''2023-01-03'', prices = (\<lambda>_. Undefined)(''USD'' := Number (Num 1), ''EUR'' := Number (Num 3))\<rparr>]"
  let ?A = "[''USD'', ''EUR'']"
  have ff: "forwardFill ?R ?A = ?R"
    by (simp add: forwardFill_def allDefined_def)
  then have ne: "forwardFill ?R ?A \<noteq> []"
    by simp
  have "''EUR'' \<in> set ?A"
    by simp
  from rebased_cumRet_formula[OF ne this] obtain m xs ys where
    p: "process ?R ?A = Inr (Some m)" and al: "aligned m = forwardFill ?R ?A"
    and r: "rebased m ''EUR'' = Some xs" "cumRet m ''EUR'' = Some ys"
    and l: "length xs = length (aligned m)" "length ys = length (aligned m)"
    and f: "\<forall>t < length (aligned m).
               xs ! t = jmul (jdiv (to_num (prices (aligned m ! t) ''EUR''))
                                   (to_num (prices (aligned m ! 0) ''EUR''))) (Num 100)
             \<and> ys ! t = jsub (jdiv (to_num (prices (aligned m ! t) ''EUR''))
                                   (to_num (prices (aligned m ! 0) ''EUR''))) (Num 1)"
    by blast
  have al': "aligned m = ?R"
    using al ff by simp
  have "xs ! 0 = Num 100 \<and> ys ! 0 = Num 0"
    using f[rule_format, of 0] by (simp add: al' jsub_def)
  moreover have "xs ! 1 = Num 150 \<and> ys ! 1 = Num (1 / 2)"
    using f[rule_format, of 1] by (simp add: al' jsub_def)
  moreover have "length xs = 2 \<and> length ys = 2"
    using l by (simp add: al')
  ultimately show ?thesis
    using p r by blast
qed

text \<open>
  The claim as first stated fails when the first clean price is 0: \<open>0 / 0\<close> is NaN, so
  the rebased series starts at NaN and not at 100.
\<close>

theorem rebased_start_counterexample:
  "(case process
           [\<lparr>date = ''2023-01-02'',
             prices = (\<lambda>_. Undefined)(''USD'' := Number (Num 1), ''XAU'' := Number (Num 0))\<rparr>]
           [''USD'', ''XAU''] of
      Inr (Some m) \<Rightarrow>
        aligned m \<noteq> [] \<and> rebased m ''XAU'' = Some [NaN] \<and> cumRet m ''XAU'' = Some [NaN]
    | _ \<Rightarrow> False)"
proof -
  let ?R = "[\<lparr>date = ''2023-01-02'',
             prices = (\<lambda>_. Undefined)(''USD'' := Number (Num 1), ''XAU'' := Number (Num 0))\<rparr>]"
  let ?A = "[''USD'', ''XAU'']"
  have ff: "forwardFill ?R ?A = ?R"
    by (simp add: forwardFill_def allDefined_def)
  have "process ?R ?A = Inr (Some (modelOf ?R ?A))"
    using process_ok[of ?R ?A] ff by simp
  then show ?thesis
    by (simp add: modelOf_def rebasedOf_def cumRetOf_def jsub_def)
qed

text \<open>
  C3 (as amended). For every model that \<open>process\<close> returns, the base asset is the first
  requested symbol and, for every requested asset \<open>a\<close> and every date index \<open>t\<close>,
  \<open>relative[a][t] = cumRet[a][t] - cumRet[baseAsset][t]\<close>; the relative strength of the
  base asset itself is 0 at every index where its cumulative return is a finite number.
\<close>

theorem relative_formula:
  assumes "forwardFill rawData assets \<noteq> []" and "assets = b # rest" and "a \<in> set assets"
  shows "\<exists>m rs rb ca cb.
           process rawData assets = Inr (Some m)
         \<and> baseAsset m = Some b
         \<and> relative m a = Some rs \<and> relative m b = Some rb
         \<and> cumRet m a = Some ca \<and> cumRet m b = Some cb
         \<and> length rs = length (dates m) \<and> length rb = length (dates m)
         \<and> length ca = length (dates m) \<and> length cb = length (dates m)
         \<and> (\<forall>t < length (dates m). rs ! t = jsub (ca ! t) (cb ! t))
         \<and> (\<forall>t < length (dates m). \<forall>c. cb ! t = Num c \<longrightarrow> rb ! t = Num 0)"
proof -
  let ?c = "forwardFill rawData assets"
  let ?m = "modelOf ?c assets"
  have raw: "rawData \<noteq> []"
    using assms(1) by (auto simp: forwardFill_def)
  have p: "process rawData assets = Inr (Some ?m)"
    using raw assms(1) by (rule process_ok)
  have b: "b \<in> set assets" and hdb: "hd assets = b"
    using assms(2) by simp_all
  have fields:
    "baseAsset ?m = Some b" "length (dates ?m) = length ?c"
    "relative ?m a = Some (relativeOf ?c b a)" "relative ?m b = Some (relativeOf ?c b b)"
    "cumRet ?m a = Some (cumRetOf ?c a)" "cumRet ?m b = Some (cumRetOf ?c b)"
    using assms(3) b hdb by (simp_all add: modelOf_def assms(2))
  have nth: "\<And>k t. t < length ?c \<Longrightarrow>
                relativeOf ?c b k ! t = jsub (cumRetOf ?c k ! t) (cumRetOf ?c b ! t)"
    by (simp add: relativeOf_def nth_mapi length_cumRetOf nth_num_def)
  have zero: "\<forall>t < length ?c. \<forall>c. cumRetOf ?c b ! t = Num c \<longrightarrow> relativeOf ?c b b ! t = Num 0"
    by (simp add: nth jsub_Num)
  have len: "\<And>k. length (relativeOf ?c b k) = length ?c"
    by (simp add: relativeOf_def length_mapi length_cumRetOf)
  show ?thesis
    apply (rule exI[of _ ?m])
    apply (rule exI[of _ "relativeOf ?c b a"])
    apply (rule exI[of _ "relativeOf ?c b b"])
    apply (rule exI[of _ "cumRetOf ?c a"])
    apply (rule exI[of _ "cumRetOf ?c b"])
    using p fields zero apply (simp add: nth len length_cumRetOf)
    done
qed

theorem relative_formula_witness:
  "\<exists>m rs rb.
     process
       [\<lparr>date = ''2023-01-02'', prices = (\<lambda>_. Undefined)(''USD'' := Number (Num 1), ''EUR'' := Number (Num 2))\<rparr>,
        \<lparr>date = ''2023-01-03'', prices = (\<lambda>_. Undefined)(''USD'' := Number (Num 1), ''EUR'' := Number (Num 3))\<rparr>]
       [''USD'', ''EUR''] = Inr (Some m)
   \<and> baseAsset m = Some ''USD''
   \<and> relative m ''EUR'' = Some rs \<and> relative m ''USD'' = Some rb
   \<and> rs ! 0 = Num 0 \<and> rs ! 1 = Num (1 / 2) \<and> rb ! 0 = Num 0 \<and> rb ! 1 = Num 0"
proof -
  let ?R = "[\<lparr>date = ''2023-01-02'', prices = (\<lambda>_. Undefined)(''USD'' := Number (Num 1), ''EUR'' := Number (Num 2))\<rparr>,
        \<lparr>date = ''2023-01-03'', prices = (\<lambda>_. Undefined)(''USD'' := Number (Num 1), ''EUR'' := Number (Num 3))\<rparr>]"
  let ?A = "[''USD'', ''EUR'']"
  have ff: "forwardFill ?R ?A = ?R"
    by (simp add: forwardFill_def allDefined_def)
  then have ne: "forwardFill ?R ?A \<noteq> []"
    by simp
  have "?A = ''USD'' # [''EUR'']" and "''EUR'' \<in> set ?A"
    by simp_all
  from relative_formula[OF ne this] obtain m rs rb ca cb where
    p: "process ?R ?A = Inr (Some m)" and b: "baseAsset m = Some ''USD''"
    and r: "relative m ''EUR'' = Some rs" "relative m ''USD'' = Some rb"
    and c: "cumRet m ''EUR'' = Some ca" "cumRet m ''USD'' = Some cb"
    and f: "\<forall>t < length (dates m). rs ! t = jsub (ca ! t) (cb ! t)"
    and z: "\<forall>t < length (dates m). \<forall>c. cb ! t = Num c \<longrightarrow> rb ! t = Num 0"
    by blast
  have "process ?R ?A = Inr (Some (modelOf ?R ?A))"
    using process_ok[of ?R ?A] ff by simp
  with p have m: "m = modelOf ?R ?A"
    by simp
  have d: "length (dates m) = 2"
    by (simp add: m modelOf_def)
  have ca: "ca = [Num 0, Num (1 / 2)]" and cb: "cb = [Num 0, Num 0]"
    using c by (simp_all add: m modelOf_def cumRetOf_def jsub_def)
  have "rs ! 0 = Num 0 \<and> rb ! 0 = Num 0"
    using f[rule_format, of 0] z[rule_format, of 0 0] by (simp add: d ca cb jsub_def)
  moreover have "rs ! 1 = Num (1 / 2) \<and> rb ! 1 = Num 0"
    using f[rule_format, of 1] z[rule_format, of 1 0] by (simp add: d ca cb jsub_def)
  ultimately show ?thesis
    using p b r by blast
qed

text \<open>
  The claim as first stated fails when the base asset's first clean price is 0: its
  cumulative return is NaN, and \<open>NaN - NaN\<close> is NaN, not 0.
\<close>

theorem relative_base_counterexample:
  "(case process
           [\<lparr>date = ''2023-01-02'',
             prices = (\<lambda>_. Undefined)(''BTC'' := Number (Num 0), ''ETH'' := Number (Num 2))\<rparr>]
           [''BTC'', ''ETH''] of
      Inr (Some m) \<Rightarrow>
        baseAsset m = Some ''BTC'' \<and> dates m = [''2023-01-02'']
        \<and> relative m ''BTC'' = Some [NaN]
    | _ \<Rightarrow> False)"
proof -
  let ?R = "[\<lparr>date = ''2023-01-02'',
             prices = (\<lambda>_. Undefined)(''BTC'' := Number (Num 0), ''ETH'' := Number (Num 2))\<rparr>]"
  let ?A = "[''BTC'', ''ETH'']"
  have ff: "forwardFill ?R ?A = ?R"
    by (simp add: forwardFill_def allDefined_def)
  have "process ?R ?A = Inr (Some (modelOf ?R ?A))"
    using process_ok[of ?R ?A] ff by simp
  then show ?thesis
    by (simp add: modelOf_def relativeOf_def cumRetOf_def jsub_def mapi_def nth_num_def)
qed

subsection \<open>Monthly returns: what the month map holds\<close>

definition monthKey :: "row \<Rightarrow> string" where
  "monthKey r = take 7 (date r)"

text \<open>The distinct months of a series, in order of first appearance.\<close>

definition monthsOf :: "row list \<Rightarrow> string list" where
  "monthsOf data = rev (remdups (rev (map monthKey data)))"

text \<open>The first and the last observation of a month.\<close>

definition firstOf :: "string \<Rightarrow> row list \<Rightarrow> row option" where
  "firstOf k data = List.find (\<lambda>r. monthKey r = k) data"

definition lastOf :: "string \<Rightarrow> row list \<Rightarrow> row option" where
  "lastOf k data = List.find (\<lambda>r. monthKey r = k) (rev data)"

lemma find_append:
  "List.find P (xs @ ys) = (case List.find P xs of Some x \<Rightarrow> Some x | None \<Rightarrow> List.find P ys)"
  by (induction xs) simp_all

lemma monthsOf_snoc:
  "monthsOf (xs @ [r]) =
     (if monthKey r \<in> set (monthsOf xs) then monthsOf xs else monthsOf xs @ [monthKey r])"
  by (simp add: monthsOf_def)

lemma set_monthsOf: "set (monthsOf xs) = monthKey ` set xs"
  by (simp add: monthsOf_def)

lemma distinct_monthsOf: "distinct (monthsOf xs)"
  by (simp add: monthsOf_def)

lemma firstOf_snoc:
  "firstOf k (xs @ [r]) =
     (case firstOf k xs of Some s \<Rightarrow> Some s | None \<Rightarrow> if monthKey r = k then Some r else None)"
  by (simp add: firstOf_def find_append split: option.splits)

lemma lastOf_snoc:
  "lastOf k (xs @ [r]) = (if monthKey r = k then Some r else lastOf k xs)"
  by (simp add: lastOf_def)

lemma firstOf_Some: "k \<in> set (monthsOf xs) \<Longrightarrow> \<exists>s. firstOf k xs = Some s"
  by (cases "firstOf k xs") (auto simp: firstOf_def set_monthsOf find_None_iff)

lemma lastOf_Some: "k \<in> set (monthsOf xs) \<Longrightarrow> \<exists>e. lastOf k xs = Some e"
  by (cases "lastOf k xs") (auto simp: lastOf_def set_monthsOf find_None_iff)

lemma firstOf_None: "k \<notin> set (monthsOf xs) \<Longrightarrow> firstOf k xs = None"
  by (auto simp: firstOf_def set_monthsOf find_None_iff)

definition entryOf :: "row list \<Rightarrow> string \<Rightarrow> string \<times> row \<times> row" where
  "entryOf data k = (k, the (firstOf k data), the (lastOf k data))"

lemma setEnd_map:
  "distinct ks \<Longrightarrow>
   setEnd k r (map (\<lambda>j. (j, f j, g j)) ks) = map (\<lambda>j. (j, f j, if j = k then r else g j)) ks"
  by (induction ks) auto

lemma buildMonthMap_snoc: "buildMonthMap (xs @ [r]) = monthStep r (buildMonthMap xs)"
  by (simp add: buildMonthMap_def)

lemma buildMonthMap_closed: "buildMonthMap data = map (entryOf data) (monthsOf data)"
proof (induction data rule: rev_induct)
  case Nil
  then show ?case by (simp add: buildMonthMap_def monthsOf_def)
next
  case (snoc r xs)
  let ?k = "monthKey r"
  have keys: "map fst (map (entryOf xs) (monthsOf xs)) = monthsOf xs"
    by (simp add: entryOf_def comp_def)
  have old: "\<And>j. j \<in> set (monthsOf xs) \<Longrightarrow> firstOf j (xs @ [r]) = firstOf j xs"
    using firstOf_Some by (fastforce simp: firstOf_snoc)
  have start: "buildMonthMap (xs @ [r]) = monthStep r (map (entryOf xs) (monthsOf xs))"
    using snoc by (simp add: buildMonthMap_snoc)
  show ?case
  proof (cases "?k \<in> set (monthsOf xs)")
    case True
    note start
    also have "monthStep r (map (entryOf xs) (monthsOf xs)) = setEnd ?k r (map (entryOf xs) (monthsOf xs))"
      using True keys by (simp add: monthStep_def monthKey_def)
    also have "\<dots> = map (\<lambda>j. (j, the (firstOf j xs), if j = ?k then r else the (lastOf j xs))) (monthsOf xs)"
      using setEnd_map[OF distinct_monthsOf, of ?k r "\<lambda>j. the (firstOf j xs)" "\<lambda>j. the (lastOf j xs)" xs]
      by (simp add: entryOf_def[abs_def])
    also have "\<dots> = map (entryOf (xs @ [r])) (monthsOf xs)"
      using old by (auto simp: entryOf_def lastOf_snoc)
    also have "\<dots> = map (entryOf (xs @ [r])) (monthsOf (xs @ [r]))"
      using True by (simp add: monthsOf_snoc)
    finally show ?thesis .
  next
    case False
    have same: "map (entryOf xs) (monthsOf xs) = map (entryOf (xs @ [r])) (monthsOf xs)"
      using old False by (auto simp: entryOf_def lastOf_snoc)
    have new: "entryOf (xs @ [r]) ?k = (?k, r, r)"
      using False by (simp add: entryOf_def firstOf_snoc firstOf_None lastOf_snoc)
    note start
    also have "monthStep r (map (entryOf xs) (monthsOf xs)) = map (entryOf xs) (monthsOf xs) @ [(?k, r, r)]"
      using False keys by (simp add: monthStep_def monthKey_def)
    also have "\<dots> = map (entryOf (xs @ [r])) (monthsOf xs) @ [entryOf (xs @ [r]) ?k]"
      by (simp only: same new)
    also have "\<dots> = map (entryOf (xs @ [r])) (monthsOf (xs @ [r]))"
      using False by (simp add: monthsOf_snoc)
    finally show ?thesis .
  qed
qed

lemma take_le_mono: "(xs :: 'a::linorder list) \<le> ys \<Longrightarrow> take n xs \<le> take n ys"
proof (induction n arbitrary: xs ys)
  case 0
  then show ?case by simp
next
  case (Suc n)
  show ?case
  proof (cases xs)
    case Nil
    then show ?thesis by simp
  next
    case (Cons x xs')
    then obtain y ys' where ys: "ys = y # ys'"
      using Suc.prems by (cases ys) auto
    with Cons Suc.prems have "x < y \<or> x = y \<and> xs' \<le> ys'"
      by simp
    then show ?thesis
      using Suc.IH[of xs' ys'] by (auto simp: Cons ys)
  qed
qed

lemma sorted_wrt_remdups: "sorted_wrt P xs \<Longrightarrow> sorted_wrt P (remdups xs)"
  by (induction xs) auto

lemma sorted_monthsOf: "sorted (map date data) \<Longrightarrow> sorted (monthsOf data)"
proof -
  assume "sorted (map date data)"
  then have "sorted_wrt (\<lambda>a b. date a \<le> date b) data"
    by (simp add: sorted_map)
  then have "sorted_wrt (\<lambda>a b. monthKey a \<le> monthKey b) data"
    by (rule sorted_wrt_mono_rel[rotated]) (simp add: monthKey_def take_le_mono)
  then have "sorted_wrt (\<lambda>a b. b \<le> a) (rev (map monthKey data))"
    by (simp add: sorted_wrt_rev sorted_wrt_map)
  then have "sorted_wrt (\<lambda>a b. b \<le> a) (remdups (rev (map monthKey data)))"
    by (rule sorted_wrt_remdups)
  then show ?thesis
    by (simp add: monthsOf_def sorted_wrt_rev)
qed

text \<open>
  C7. For every series and asset list, the monthly-return matrix has one row per
  requested asset (\<open>z.length\<close> equals \<open>y.length\<close>); its column axis \<open>x\<close> lists the distinct
  \<open>YYYY-MM\<close> months of the series, each once, in order of first appearance (which is
  chronological for a date-ordered series); every row has one entry per month; and the
  entry of asset \<open>a\<close> for month \<open>m\<close> is \<open>(endPrice - startPrice) / startPrice * 100\<close>,
  where \<open>startPrice\<close> and \<open>endPrice\<close> are the prices of \<open>a\<close> on the first and on the last
  observation of the series that falls in \<open>m\<close>.
\<close>

theorem monthly_returns_matrix:
  assumes "mr = calculateMonthlyReturns data assets"
  shows "x_axis mr = monthsOf data
       \<and> distinct (x_axis mr)
       \<and> set (x_axis mr) = monthKey ` set data
       \<and> length (x_axis mr) = card (monthKey ` set data)
       \<and> (sorted (map date data) \<longrightarrow> sorted (x_axis mr))
       \<and> y_axis mr = assets
       \<and> length (z_data mr) = length (y_axis mr)
       \<and> (\<forall>i < length assets.
             length (z_data mr ! i) = length (x_axis mr)
           \<and> (\<forall>j < length (x_axis mr). \<exists>s e.
                 firstOf (x_axis mr ! j) data = Some s
               \<and> lastOf (x_axis mr ! j) data = Some e
               \<and> z_data mr ! i ! j =
                   jmul (jdiv (jsub (to_num (prices e (assets ! i))) (to_num (prices s (assets ! i))))
                              (to_num (prices s (assets ! i))))
                        (Num 100)))"
proof -
  have x: "x_axis mr = monthsOf data"
    by (simp add: assms calculateMonthlyReturns_def buildMonthMap_closed entryOf_def comp_def)
  have y: "y_axis mr = assets"
    by (simp add: assms calculateMonthlyReturns_def Let_def)
  have z: "z_data mr =
             map (\<lambda>asset. map (\<lambda>k. monthReturn asset (the (firstOf k data)) (the (lastOf k data)))
                             (monthsOf data)) assets"
    by (simp add: assms calculateMonthlyReturns_def buildMonthMap_closed entryOf_def comp_def)
  have card: "length (monthsOf data) = card (monthKey ` set data)"
    using distinct_card[OF distinct_monthsOf, of data] by (simp add: set_monthsOf)
  have zlen: "length (z_data mr) = length (y_axis mr)"
    by (simp add: z y)
  have rowlen: "length (z_data mr ! i) = length (x_axis mr)" if "i < length assets" for i
    using that by (simp add: z x)
  have entry: "\<exists>s e. firstOf (x_axis mr ! j) data = Some s
               \<and> lastOf (x_axis mr ! j) data = Some e
               \<and> z_data mr ! i ! j =
                   jmul (jdiv (jsub (to_num (prices e (assets ! i))) (to_num (prices s (assets ! i))))
                              (to_num (prices s (assets ! i))))
                        (Num 100)"
    if i: "i < length assets" and j: "j < length (x_axis mr)" for i j
  proof -
    from j have j': "j < length (monthsOf data)"
      by (simp add: x)
    then have "monthsOf data ! j \<in> set (monthsOf data)"
      by simp
    then obtain s e where s: "firstOf (monthsOf data ! j) data = Some s"
      and e: "lastOf (monthsOf data ! j) data = Some e"
      using firstOf_Some lastOf_Some by blast
    then show ?thesis
      using i j' by (simp add: x z monthReturn_def Let_def)
  qed
  show ?thesis
  proof (intro conjI allI impI)
    show "x_axis mr = monthsOf data"
      by (rule x)
    show "distinct (x_axis mr)"
      by (simp add: x distinct_monthsOf)
    show "set (x_axis mr) = monthKey ` set data"
      by (simp add: x set_monthsOf)
    show "length (x_axis mr) = card (monthKey ` set data)"
      by (simp add: x card)
    show "sorted (x_axis mr)" if "sorted (map date data)"
      using that by (simp add: x sorted_monthsOf)
    show "y_axis mr = assets"
      by (rule y)
    show "length (z_data mr) = length (y_axis mr)"
      by (rule zlen)
    show "length (z_data mr ! i) = length (x_axis mr)" if "i < length assets" for i
      using that by (rule rowlen)
    show "\<exists>s e. firstOf (x_axis mr ! j) data = Some s
               \<and> lastOf (x_axis mr ! j) data = Some e
               \<and> z_data mr ! i ! j =
                   jmul (jdiv (jsub (to_num (prices e (assets ! i))) (to_num (prices s (assets ! i))))
                              (to_num (prices s (assets ! i))))
                        (Num 100)"
      if "i < length assets" and "j < length (x_axis mr)" for i j
      using that by (rule entry)
  qed
qed

definition demoSeries :: "row list" where
  "demoSeries =
     [\<lparr>date = ''2023-01-30'', prices = (\<lambda>_. Undefined)(''BTC'' := Number (Num 10), ''ETH'' := Number (Num 4))\<rparr>,
      \<lparr>date = ''2023-01-31'', prices = (\<lambda>_. Undefined)(''BTC'' := Number (Num 15), ''ETH'' := Number (Num 4))\<rparr>,
      \<lparr>date = ''2023-02-01'', prices = (\<lambda>_. Undefined)(''BTC'' := Number (Num 30), ''ETH'' := Number (Num 2))\<rparr>,
      \<lparr>date = ''2023-02-02'', prices = (\<lambda>_. Undefined)(''BTC'' := Number (Num 45), ''ETH'' := Number (Num 3))\<rparr>]"

theorem monthly_returns_matrix_witness:
  "x_axis (calculateMonthlyReturns demoSeries [''BTC'', ''ETH'']) = [''2023-01'', ''2023-02'']
   \<and> y_axis (calculateMonthlyReturns demoSeries [''BTC'', ''ETH'']) = [''BTC'', ''ETH'']
   \<and> length (z_data (calculateMonthlyReturns demoSeries [''BTC'', ''ETH''])) = 2
   \<and> length (z_data (calculateMonthlyReturns demoSeries [''BTC'', ''ETH'']) ! 0) = 2
   \<and> z_data (calculateMonthlyReturns demoSeries [''BTC'', ''ETH'']) ! 0 ! 0 = Num 50
   \<and> z_data (calculateMonthlyReturns demoSeries [''BTC'', ''ETH'']) ! 1 ! 1 = Num 50"
proof -
  let ?mr = "calculateMonthlyReturns demoSeries [''BTC'', ''ETH'']"
  note t = monthly_returns_matrix[of ?mr demoSeries "[''BTC'', ''ETH'']", OF refl]
  have mo: "monthsOf demoSeries = [''2023-01'', ''2023-02'']"
    by (simp add: monthsOf_def monthKey_def demoSeries_def)
  have x: "x_axis ?mr = [''2023-01'', ''2023-02'']"
    using t mo by simp
  have y: "y_axis ?mr = [''BTC'', ''ETH'']" and zl: "length (z_data ?mr) = 2"
    using t by simp_all
  have r0: "length (z_data ?mr ! 0) = 2"
    using t x by simp
  have f0: "firstOf ''2023-01'' demoSeries = Some (demoSeries ! 0)"
    and l0: "lastOf ''2023-01'' demoSeries = Some (demoSeries ! 1)"
    and f1: "firstOf ''2023-02'' demoSeries = Some (demoSeries ! 2)"
    and l1: "lastOf ''2023-02'' demoSeries = Some (demoSeries ! 3)"
    by (simp_all add: firstOf_def lastOf_def monthKey_def demoSeries_def)
  from t have rows: "\<forall>i < length [''BTC'', ''ETH''].
             length (z_data ?mr ! i) = length (x_axis ?mr)
           \<and> (\<forall>j < length (x_axis ?mr). \<exists>s e.
                 firstOf (x_axis ?mr ! j) demoSeries = Some s
               \<and> lastOf (x_axis ?mr ! j) demoSeries = Some e
               \<and> z_data ?mr ! i ! j =
                   jmul (jdiv (jsub (to_num (prices e ([''BTC'', ''ETH''] ! i)))
                                    (to_num (prices s ([''BTC'', ''ETH''] ! i))))
                              (to_num (prices s ([''BTC'', ''ETH''] ! i))))
                        (Num 100))"
    by - (elim conjE, assumption)
  have "\<exists>s e. firstOf (x_axis ?mr ! 0) demoSeries = Some s
               \<and> lastOf (x_axis ?mr ! 0) demoSeries = Some e
               \<and> z_data ?mr ! 0 ! 0 =
                   jmul (jdiv (jsub (to_num (prices e ''BTC'')) (to_num (prices s ''BTC'')))
                              (to_num (prices s ''BTC'')))
                        (Num 100)"
    using rows[rule_format, of 0, THEN conjunct2, rule_format, of 0] by (simp add: x)
  then have "z_data ?mr ! 0 ! 0 =
               jmul (jdiv (jsub (to_num (prices (demoSeries ! 1) ''BTC''))
                                (to_num (prices (demoSeries ! 0) ''BTC'')))
                          (to_num (prices (demoSeries ! 0) ''BTC'')))
                    (Num 100)"
    by (auto simp: x f0 l0)
  also have "\<dots> = Num 50"
    by (simp add: demoSeries_def jsub_def)
  finally have z00: "z_data ?mr ! 0 ! 0 = Num 50" .
  have "\<exists>s e. firstOf (x_axis ?mr ! 1) demoSeries = Some s
               \<and> lastOf (x_axis ?mr ! 1) demoSeries = Some e
               \<and> z_data ?mr ! 1 ! 1 =
                   jmul (jdiv (jsub (to_num (prices e ''ETH'')) (to_num (prices s ''ETH'')))
                              (to_num (prices s ''ETH'')))
                        (Num 100)"
    using rows[rule_format, of 1, THEN conjunct2, rule_format, of 1] by (simp add: x)
  then have "z_data ?mr ! 1 ! 1 =
               jmul (jdiv (jsub (to_num (prices (demoSeries ! 3) ''ETH''))
                                (to_num (prices (demoSeries ! 2) ''ETH'')))
                          (to_num (prices (demoSeries ! 2) ''ETH'')))
                    (Num 100)"
    by (auto simp: x f1 l1)
  also have "\<dots> = Num 50"
    by (simp add: demoSeries_def jsub_def)
  finally have z11: "z_data ?mr ! 1 ! 1 = Num 50" .
  from x y zl r0 z00 z11 show ?thesis
    by simp
qed

subsection \<open>Rolling z-score: the loop and the statistics\<close>
















subsection \<open>Ranks: the sort and the rank map\<close>

lemma set_insertBy: "set (insertBy cmp x ys) = insert x (set ys)"
  by (induction ys) auto

lemma length_insertBy: "length (insertBy cmp x ys) = Suc (length ys)"
  by (induction ys) auto

lemma distinct_insertBy: "distinct (insertBy cmp x ys) = (x \<notin> set ys \<and> distinct ys)"
  by (induction ys) (auto simp: set_insertBy)

lemma set_sortBy: "set (sortBy cmp xs) = set xs"
  by (induction xs) (simp_all add: sortBy_def set_insertBy)

lemma length_sortBy: "length (sortBy cmp xs) = length xs"
  by (induction xs) (simp_all add: sortBy_def length_insertBy)

lemma distinct_sortBy: "distinct (sortBy cmp xs) = distinct xs"
  by (induction xs) (simp_all add: sortBy_def distinct_insertBy set_sortBy[unfolded sortBy_def])

lemma insertBy_map:
  "insertBy cmp (g x) (map g ys) = map g (insertBy (\<lambda>i j. cmp (g i) (g j)) x ys)"
  by (induction ys) auto

lemma sortBy_map: "sortBy cmp (map g xs) = map g (sortBy (\<lambda>i j. cmp (g i) (g j)) xs)"
  by (induction xs) (simp_all add: sortBy_def insertBy_map)

text \<open>\<open>a > b\<close> on numbers: false whenever an operand is NaN.\<close>

fun jgt :: "jsnum \<Rightarrow> jsnum \<Rightarrow> bool" where
  "jgt NaN _ = False"
| "jgt _ NaN = False"
| "jgt (Num a) (Num b) = (b < a)"
| "jgt PInf PInf = False"
| "jgt PInf _ = True"
| "jgt NInf _ = False"
| "jgt (Num a) NInf = True"
| "jgt (Num a) PInf = False"

lemma is_pos_jsub: "is_pos (jsub a b) = jgt a b"
  by (cases a; cases b) (simp_all add: jsub_def)

lemma jgt_trans: "jgt a b \<Longrightarrow> jgt b c \<Longrightarrow> jgt a c"
  by (cases a; cases b; cases c) simp_all

lemma jgt_total: "a \<noteq> NaN \<Longrightarrow> b \<noteq> NaN \<Longrightarrow> \<not> jgt a b \<Longrightarrow> \<not> jgt b a \<Longrightarrow> a = b"
  by (cases a; cases b) simp_all

text \<open>
  The order the sort establishes on the indices of the asset list: greater value
  first, equal values in input order.
\<close>

definition rankedBefore :: "(nat \<Rightarrow> jsnum) \<Rightarrow> nat \<Rightarrow> nat \<Rightarrow> bool" where
  "rankedBefore v i j = (jgt (v i) (v j) \<or> (v i = v j \<and> i < j))"

lemma sorted_insertBy:
  assumes "v x \<noteq> NaN" and "\<forall>y \<in> set ys. v y \<noteq> NaN"
    and "sorted_wrt (rankedBefore v) ys" and "\<forall>y \<in> set ys. x < y"
  shows "sorted_wrt (rankedBefore v) (insertBy (\<lambda>i j. jsub (v j) (v i)) x ys)"
  using assms(2-4)
proof (induction ys)
  case Nil
  then show ?case by simp
next
  case (Cons y ys)
  show ?case
  proof (cases "jgt (v y) (v x)")
    case True
    have "sorted_wrt (rankedBefore v) (insertBy (\<lambda>i j. jsub (v j) (v i)) x ys)"
      using Cons by simp
    moreover have "rankedBefore v y x"
      using True by (simp add: rankedBefore_def)
    ultimately show ?thesis
      using True Cons.prems(2) by (simp add: is_pos_jsub set_insertBy)
  next
    case False
    have "rankedBefore v x z" if z: "z \<in> set (y # ys)" for z
    proof -
      have xz: "x < z" and nz: "v z \<noteq> NaN" and ny: "v y \<noteq> NaN"
        using Cons.prems(1,3) z by auto
      have "\<not> jgt (v z) (v x)"
      proof
        assume g: "jgt (v z) (v x)"
        show False
        proof (cases "z = y")
          case True
          with g False show False by simp
        next
          case zy: False
          with z Cons.prems(2) have "rankedBefore v y z"
            by auto
          then have "jgt (v y) (v x)"
            using g jgt_trans[of "v y" "v z" "v x"] by (auto simp: rankedBefore_def)
          with False show False by simp
        qed
      qed
      then have "jgt (v x) (v z) \<or> v x = v z"
        using jgt_total[OF assms(1) nz] by blast
      with xz show ?thesis
        by (auto simp: rankedBefore_def)
    qed
    then show ?thesis
      using False Cons.prems(2) by (simp add: is_pos_jsub)
  qed
qed

lemma sorted_sortBy:
  assumes "\<forall>y \<in> set xs. v y \<noteq> NaN" and "sorted_wrt (<) xs"
  shows "sorted_wrt (rankedBefore v) (sortBy (\<lambda>i j. jsub (v j) (v i)) xs)"
  using assms
proof (induction xs)
  case Nil
  then show ?case by (simp add: sortBy_def)
next
  case (Cons x xs)
  have "sorted_wrt (rankedBefore v) (insertBy (\<lambda>i j. jsub (v j) (v i)) x (sortBy (\<lambda>i j. jsub (v j) (v i)) xs))"
    using Cons by (intro sorted_insertBy) (simp_all add: set_sortBy)
  then show ?case
    by (simp add: sortBy_def)
qed

lemma assignRanks_other:
  "a \<notin> fst ` set ps \<Longrightarrow> assignRanks ps idx m a = m a"
  by (induction ps arbitrary: idx m) auto

lemma assignRanks_nth:
  "distinct (map fst ps) \<Longrightarrow> k < length ps \<Longrightarrow>
   assignRanks ps idx m (fst (ps ! k)) = Some (idx + k + 1)"
proof (induction ps arbitrary: idx m k)
  case Nil
  then show ?case by simp
next
  case (Cons p ps)
  show ?case
  proof (cases k)
    case 0
    then show ?thesis
      using Cons.prems(1) by (simp add: assignRanks_other)
  next
    case (Suc j)
    then show ?thesis
      using Cons.prems Cons.IH[of j "idx + 1"] by simp
  qed
qed

lemma assignRanks_dom: "dom (assignRanks ps idx m) = dom m \<union> fst ` set ps"
  by (induction ps arbitrary: idx m) auto

text \<open>The rebased value of the \<open>i\<close>-th asset on date \<open>t\<close>, and the indices in rank order.\<close>

definition valAt :: "row list \<Rightarrow> string list \<Rightarrow> nat \<Rightarrow> nat \<Rightarrow> jsnum" where
  "valAt clean assets t i = nth_num (rebasedOf clean (assets ! i)) t"

definition rankOrder :: "row list \<Rightarrow> string list \<Rightarrow> nat \<Rightarrow> nat list" where
  "rankOrder clean assets t =
     sortBy (\<lambda>i j. jsub (valAt clean assets t j) (valAt clean assets t i)) [0..<length assets]"

lemma rankOrder_perm:
  "distinct (rankOrder clean assets t)"
  "set (rankOrder clean assets t) = {..<length assets}"
  "length (rankOrder clean assets t) = length assets"
  by (auto simp: rankOrder_def distinct_sortBy set_sortBy length_sortBy)

lemma rankMapOf_order:
  "rankMapOf clean assets t =
     assignRanks (map (\<lambda>i. (assets ! i, valAt clean assets t i)) (rankOrder clean assets t))
       0 Map.empty"
proof -
  let ?g = "\<lambda>i. (assets ! i, valAt clean assets t i)"
  have "perfOf clean assets t = map (\<lambda>a. (a, nth_num (rebasedOf clean a) t)) (map (nth assets) [0..<length assets])"
    by (simp only: map_nth perfOf_def)
  also have "\<dots> = map ?g [0..<length assets]"
    by (simp add: valAt_def)
  finally have "sortBy byValDesc (perfOf clean assets t) = map ?g (rankOrder clean assets t)"
    by (simp add: sortBy_map rankOrder_def byValDesc_def)
  then show ?thesis
    by (simp add: rankMapOf_def)
qed

lemma rankMapOf_nth:
  assumes "distinct assets" and "k < length assets"
  shows "rankMapOf clean assets t (assets ! (rankOrder clean assets t ! k)) = Some (k + 1)"
proof -
  let ?perm = "rankOrder clean assets t"
  let ?ps = "map (\<lambda>i. (assets ! i, valAt clean assets t i)) ?perm"
  have "map fst ?ps = map (nth assets) ?perm"
    by (simp add: comp_def)
  moreover have "inj_on (nth assets) (set ?perm)"
    using assms(1) by (intro inj_on_nth) (simp_all add: rankOrder_perm)
  ultimately have d: "distinct (map fst ?ps)"
    by (simp only: distinct_map rankOrder_perm)
  have k: "k < length ?ps"
    using assms(2) by (simp add: rankOrder_perm)
  have "assignRanks ?ps 0 Map.empty (fst (?ps ! k)) = Some (0 + k + 1)"
    using d k by (rule assignRanks_nth)
  then show ?thesis
    using assms(2) by (simp add: rankMapOf_order rankOrder_perm)
qed

lemma rankMapOf_dom: "dom (rankMapOf clean assets t) = set assets"
proof -
  have "(\<lambda>i. assets ! i) ` {..<length assets} = set assets"
    by (auto simp: set_conv_nth)
  then show ?thesis
    by (simp add: rankMapOf_order assignRanks_dom image_image rankOrder_perm)
qed

lemma asset_has_place:
  assumes "a \<in> set assets"
  shows "\<exists>k < length assets. a = assets ! (rankOrder clean assets t ! k)"
proof -
  from assms obtain i where i: "i < length assets" "a = assets ! i"
    by (auto simp: in_set_conv_nth)
  then have "i \<in> set (rankOrder clean assets t)"
    by (simp add: rankOrder_perm)
  then obtain k where "k < length (rankOrder clean assets t)" "rankOrder clean assets t ! k = i"
    by (auto simp: in_set_conv_nth)
  with i show ?thesis
    by (auto simp: rankOrder_perm)
qed

lemma rankMapOf_image:
  assumes "distinct assets"
  shows "rankMapOf clean assets t ` set assets = Some ` {1..length assets}"
proof (intro equalityI subsetI)
  fix r assume "r \<in> rankMapOf clean assets t ` set assets"
  then obtain a where a: "a \<in> set assets" "r = rankMapOf clean assets t a"
    by auto
  from asset_has_place[OF a(1), of clean t] obtain k where
    k: "k < length assets" "a = assets ! (rankOrder clean assets t ! k)"
    by auto
  then have "r = Some (k + 1)"
    using a(2) rankMapOf_nth[OF assms k(1), of clean t] by simp
  with k(1) show "r \<in> Some ` {1..length assets}"
    by auto
next
  fix r assume "r \<in> Some ` {1..length assets}"
  then obtain n where n: "1 \<le> n" "n \<le> length assets" "r = Some n"
    by auto
  then have k: "n - 1 < length assets"
    by simp
  have p: "rankOrder clean assets t ! (n - 1) < length assets"
    using k nth_mem[of "n - 1" "rankOrder clean assets t"]
    by (simp add: rankOrder_perm)
  have "rankMapOf clean assets t (assets ! (rankOrder clean assets t ! (n - 1))) = r"
    using rankMapOf_nth[OF assms k, of clean t] n by simp
  with p show "r \<in> rankMapOf clean assets t ` set assets"
    by (metis imageI nth_mem)
qed

lemma rankMapOf_inj:
  assumes "distinct assets"
  shows "inj_on (rankMapOf clean assets t) (set assets)"
proof (rule inj_onI)
  fix a b
  assume a: "a \<in> set assets" and b: "b \<in> set assets"
    and eq: "rankMapOf clean assets t a = rankMapOf clean assets t b"
  from asset_has_place[OF a, of clean t] obtain k where
    k: "k < length assets" "a = assets ! (rankOrder clean assets t ! k)"
    by auto
  from asset_has_place[OF b, of clean t] obtain l where
    l: "l < length assets" "b = assets ! (rankOrder clean assets t ! l)"
    by auto
  from eq have "k = l"
    using rankMapOf_nth[OF assms k(1), of clean t] rankMapOf_nth[OF assms l(1), of clean t] k(2) l(2)
    by simp
  with k l show "a = b"
    by simp
qed

lemma rankOrder_sorted:
  assumes "\<forall>i < length assets. valAt clean assets t i \<noteq> NaN"
    and "k < l" and "l < length assets"
  shows "rankedBefore (valAt clean assets t) (rankOrder clean assets t ! k) (rankOrder clean assets t ! l)"
proof -
  have "sorted_wrt (rankedBefore (valAt clean assets t)) (rankOrder clean assets t)"
    unfolding rankOrder_def using assms(1) by (intro sorted_sortBy) simp_all
  then show ?thesis
    using assms(2,3) by (simp add: sorted_wrt_iff_nth_less rankOrder_perm)
qed

text \<open>
  C4 (as amended). For every date index \<open>t\<close> of the clean series and every list of
  pairwise distinct requested assets, the rank map of that date has exactly the
  requested assets as keys and assigns them the values \<open>1..N\<close>, each exactly once: there
  is a permutation \<open>perm\<close> of the asset indices with rank \<open>k + 1\<close> for asset \<open>perm[k]\<close>.
  When none of the rebased values of that date is NaN, the order is by descending
  rebased value (so rank 1 goes to the highest value) and assets with equal values
  keep their input order.
\<close>

theorem rank_evolution:
  assumes "forwardFill rawData assets \<noteq> []" and "distinct assets"
    and "t < length (forwardFill rawData assets)"
  shows "\<exists>m rk v perm.
           process rawData assets = Inr (Some m)
         \<and> aligned m = forwardFill rawData assets
         \<and> length (ranks m) = length (aligned m)
         \<and> ranks m ! t = rk
         \<and> dom rk = set assets
         \<and> rk ` set assets = Some ` {1..length assets}
         \<and> inj_on rk (set assets)
         \<and> (\<forall>i < length assets. \<exists>xs. rebased m (assets ! i) = Some xs \<and> xs ! t = v i)
         \<and> distinct perm \<and> set perm = {..<length assets}
         \<and> (\<forall>k < length assets. rk (assets ! (perm ! k)) = Some (k + 1))
         \<and> ((\<forall>i < length assets. v i \<noteq> NaN) \<longrightarrow>
               (\<forall>k l. k < l \<and> l < length assets \<longrightarrow>
                  jgt (v (perm ! k)) (v (perm ! l))
                  \<or> (v (perm ! k) = v (perm ! l) \<and> perm ! k < perm ! l)))"
proof -
  let ?c = "forwardFill rawData assets"
  let ?m = "modelOf ?c assets"
  let ?rk = "rankMapOf ?c assets t"
  let ?v = "valAt ?c assets t"
  let ?perm = "rankOrder ?c assets t"
  have raw: "rawData \<noteq> []"
    using assms(1) by (auto simp: forwardFill_def)
  have p: "process rawData assets = Inr (Some ?m)"
    using raw assms(1) by (rule process_ok)
  have al: "aligned ?m = ?c" and len: "length (ranks ?m) = length (aligned ?m)"
    by (simp_all add: modelOf_def)
  have rk: "ranks ?m ! t = ?rk"
    using assms(3) by (simp add: modelOf_def)
  have reb: "\<exists>xs. rebased ?m (assets ! i) = Some xs \<and> xs ! t = ?v i" if "i < length assets" for i
    using that assms(3) by (simp add: modelOf_def valAt_def nth_num_def length_rebasedOf)
  have place: "?rk (assets ! (?perm ! k)) = Some (k + 1)" if "k < length assets" for k
    using assms(2) that by (rule rankMapOf_nth)
  have order: "jgt (?v (?perm ! k)) (?v (?perm ! l))
                 \<or> (?v (?perm ! k) = ?v (?perm ! l) \<and> ?perm ! k < ?perm ! l)"
    if "\<forall>i < length assets. ?v i \<noteq> NaN" and "k < l \<and> l < length assets" for k l
    using rankOrder_sorted[of assets ?c t k l] that by (simp add: rankedBefore_def)
  show ?thesis
  proof (intro exI[of _ ?m] exI[of _ ?rk] exI[of _ ?v] exI[of _ ?perm] conjI allI impI)
    show "process rawData assets = Inr (Some ?m)" by (rule p)
    show "aligned ?m = ?c" by (rule al)
    show "length (ranks ?m) = length (aligned ?m)" by (rule len)
    show "ranks ?m ! t = ?rk" by (rule rk)
    show "dom ?rk = set assets" by (rule rankMapOf_dom)
    show "?rk ` set assets = Some ` {1..length assets}"
      using assms(2) by (rule rankMapOf_image)
    show "inj_on ?rk (set assets)"
      using assms(2) by (rule rankMapOf_inj)
    show "\<exists>xs. rebased ?m (assets ! i) = Some xs \<and> xs ! t = ?v i" if "i < length assets" for i
      using that by (rule reb)
    show "distinct ?perm" and "set ?perm = {..<length assets}"
      by (rule rankOrder_perm)+
    show "?rk (assets ! (?perm ! k)) = Some (k + 1)" if "k < length assets" for k
      using that by (rule place)
    show "jgt (?v (?perm ! k)) (?v (?perm ! l))
                 \<or> (?v (?perm ! k) = ?v (?perm ! l) \<and> ?perm ! k < ?perm ! l)"
      if "\<forall>i < length assets. ?v i \<noteq> NaN" and "k < l \<and> l < length assets" for k l
      using that by (rule order)
  qed
qed

theorem rank_evolution_witness:
  "\<exists>m. process
          [\<lparr>date = ''2023-01-02'', prices = (\<lambda>_. Undefined)(''USD'' := Number (Num 1),
              ''EUR'' := Number (Num 2), ''GBP'' := Number (Num 4))\<rparr>,
           \<lparr>date = ''2023-01-03'', prices = (\<lambda>_. Undefined)(''USD'' := Number (Num 1),
              ''EUR'' := Number (Num 3), ''GBP'' := Number (Num 4))\<rparr>]
          [''USD'', ''EUR'', ''GBP''] = Inr (Some m)
      \<and> length (ranks m) = 2
      \<and> dom (ranks m ! 1) = {''USD'', ''EUR'', ''GBP''}
      \<and> (ranks m ! 1) ''EUR'' = Some 1
      \<and> (ranks m ! 1) ''USD'' = Some 2
      \<and> (ranks m ! 1) ''GBP'' = Some 3"
proof -
  let ?R = "[\<lparr>date = ''2023-01-02'', prices = (\<lambda>_. Undefined)(''USD'' := Number (Num 1),
              ''EUR'' := Number (Num 2), ''GBP'' := Number (Num 4))\<rparr>,
           \<lparr>date = ''2023-01-03'', prices = (\<lambda>_. Undefined)(''USD'' := Number (Num 1),
              ''EUR'' := Number (Num 3), ''GBP'' := Number (Num 4))\<rparr>]"
  let ?A = "[''USD'', ''EUR'', ''GBP'']"
  have ff: "forwardFill ?R ?A = ?R"
    by (simp add: forwardFill_def allDefined_def)
  have h: "forwardFill ?R ?A \<noteq> []" "distinct ?A" "1 < length (forwardFill ?R ?A)"
    by (simp_all add: ff)
  from rank_evolution[OF h] obtain m rk where
    p: "process ?R ?A = Inr (Some m)" and al: "aligned m = forwardFill ?R ?A"
    and len: "length (ranks m) = length (aligned m)"
    and rk: "ranks m ! 1 = rk" and d: "dom rk = set ?A"
    by (elim exE conjE) (rule that, assumption+)
  have "process ?R ?A = Inr (Some (modelOf ?R ?A))"
    using process_ok[of ?R ?A] ff by simp
  with p have m: "m = modelOf ?R ?A"
    by simp
  have r: "ranks m ! 1 = rankMapOf ?R ?A 1"
    by (simp add: m modelOf_def)
  have "rankMapOf ?R ?A 1 ''EUR'' = Some 1" and "rankMapOf ?R ?A 1 ''USD'' = Some 2"
    and "rankMapOf ?R ?A 1 ''GBP'' = Some 3"
    by (simp_all add: rankMapOf_def perfOf_def sortBy_def rebasedOf_def nth_num_def
          byValDesc_def jsub_def)
  moreover have "length (ranks m) = 2"
    using len al ff by simp
  moreover have "dom (ranks m ! 1) = {''USD'', ''EUR'', ''GBP''}"
    using d rk by auto
  ultimately show ?thesis
    using p r by simp
qed

text \<open>
  The claim as first stated fails in two ways. A symbol requested twice gets one key
  in the rank map, so rank 1 is assigned to nobody; and an asset whose rebased value is
  NaN (first clean price 0) compares as equal to every other asset and keeps its input
  position, here rank 1 ahead of an asset whose rebased value is 100.
\<close>

theorem rank_evolution_counterexample:
  "(case process
           [\<lparr>date = ''2023-01-02'', prices = (\<lambda>_. Undefined)(''EUR'' := Number (Num 2))\<rparr>]
           [''EUR'', ''EUR''] of
      Inr (Some m) \<Rightarrow> ranks m = [[''EUR'' \<mapsto> 2]]
    | _ \<Rightarrow> False)
   \<and>
   (case process
           [\<lparr>date = ''2023-01-02'',
             prices = (\<lambda>_. Undefined)(''XAU'' := Number (Num 0), ''USD'' := Number (Num 1))\<rparr>]
           [''XAU'', ''USD''] of
      Inr (Some m) \<Rightarrow>
        rebased m ''XAU'' = Some [NaN] \<and> rebased m ''USD'' = Some [Num 100]
        \<and> ranks m = [[''XAU'' \<mapsto> 1, ''USD'' \<mapsto> 2]]
    | _ \<Rightarrow> False)"
proof -
  let ?R1 = "[\<lparr>date = ''2023-01-02'', prices = (\<lambda>_. Undefined)(''EUR'' := Number (Num 2))\<rparr>]"
  let ?A1 = "[''EUR'', ''EUR'']"
  let ?R2 = "[\<lparr>date = ''2023-01-02'',
             prices = (\<lambda>_. Undefined)(''XAU'' := Number (Num 0), ''USD'' := Number (Num 1))\<rparr>]"
  let ?A2 = "[''XAU'', ''USD'']"
  have ff1: "forwardFill ?R1 ?A1 = ?R1" and ff2: "forwardFill ?R2 ?A2 = ?R2"
    by (simp_all add: forwardFill_def allDefined_def)
  have p1: "process ?R1 ?A1 = Inr (Some (modelOf ?R1 ?A1))"
    using process_ok[of ?R1 ?A1] ff1 by simp
  have p2: "process ?R2 ?A2 = Inr (Some (modelOf ?R2 ?A2))"
    using process_ok[of ?R2 ?A2] ff2 by simp
  have r1: "ranks (modelOf ?R1 ?A1) = [[''EUR'' \<mapsto> 2]]"
    by (simp add: modelOf_def rankMapOf_def perfOf_def sortBy_def rebasedOf_def nth_num_def
          byValDesc_def jsub_def numeral_2_eq_2)
  have r2: "ranks (modelOf ?R2 ?A2) = [[''XAU'' \<mapsto> 1, ''USD'' \<mapsto> 2]]"
    by (simp add: modelOf_def rankMapOf_def perfOf_def sortBy_def rebasedOf_def nth_num_def
          byValDesc_def jsub_def numeral_2_eq_2)
  have v2: "rebased (modelOf ?R2 ?A2) ''XAU'' = Some [NaN]"
    "rebased (modelOf ?R2 ?A2) ''USD'' = Some [Num 100]"
    by (simp_all add: modelOf_def rebasedOf_def)
  show ?thesis
    by (simp only: p1 p2 sum.case option.case r1 r2 v2)
qed

subsection \<open>Fiat response\<close>

lemma fiatPrices_closed:
  "fiatPrices as rs base pr a =
     (if a \<in> set as
      then (if a = base then Number (Num 1)
            else if truthy (rs a) then Number (jdiv (Num 1) (to_num (rs a)))
            else Null)
      else pr a)"
  by (induction as arbitrary: pr) auto

text \<open>
  C1 (as amended). For every entry (date, rate set) of a fiat response and every
  requested asset list, the processed series holds an observation for that date that
  assigns price 1.0 to the reference currency, price \<open>1 / rate\<close> to every other asset
  whose rate is present and not 0, and \<open>null\<close> to every other asset whose rate is
  missing from the rate set or is 0. The series has one observation per entry, ordered
  by date.
\<close>

theorem fiat_observation:
  assumes "(d, rs) \<in> set rates"
  shows "length (processFiatResponse rates assets base) = length rates
       \<and> sorted (map date (processFiatResponse rates assets base))
       \<and> (\<exists>r \<in> set (processFiatResponse rates assets base).
             date r = d
           \<and> (\<forall>a \<in> set assets.
                 (a = base \<longrightarrow> prices r a = Number (Num 1))
               \<and> (a \<noteq> base \<longrightarrow>
                    (\<forall>x. rs a = Number (Num x) \<and> x \<noteq> 0 \<longrightarrow> prices r a = Number (Num (1 / x)))
                  \<and> (rs a = Undefined \<longrightarrow> prices r a = Null)
                  \<and> (rs a = Number (Num 0) \<longrightarrow> prices r a = Null))))"
proof -
  let ?out = "processFiatResponse rates assets base"
  let ?r = "\<lparr>date = d, prices = fiatPrices assets rs base (\<lambda>_. Undefined)\<rparr>"
  have len: "length ?out = length rates"
    by (simp add: processFiatResponse_def)
  have "map date ?out = map fst (sort_key fst rates)"
    by (simp add: processFiatResponse_def comp_def case_prod_unfold)
  then have srt: "sorted (map date ?out)"
    by simp
  have "(d, rs) \<in> set (sort_key fst rates)"
    using assms by simp
  then have mem: "?r \<in> set ?out"
    unfolding processFiatResponse_def by (auto simp: image_iff intro!: bexI[of _ "(d, rs)"])
  have pr: "\<forall>a \<in> set assets.
                 (a = base \<longrightarrow> prices ?r a = Number (Num 1))
               \<and> (a \<noteq> base \<longrightarrow>
                    (\<forall>x. rs a = Number (Num x) \<and> x \<noteq> 0 \<longrightarrow> prices ?r a = Number (Num (1 / x)))
                  \<and> (rs a = Undefined \<longrightarrow> prices ?r a = Null)
                  \<and> (rs a = Number (Num 0) \<longrightarrow> prices ?r a = Null))"
    by (simp add: fiatPrices_closed)
  from mem pr have "\<exists>r \<in> set ?out.
             date r = d
           \<and> (\<forall>a \<in> set assets.
                 (a = base \<longrightarrow> prices r a = Number (Num 1))
               \<and> (a \<noteq> base \<longrightarrow>
                    (\<forall>x. rs a = Number (Num x) \<and> x \<noteq> 0 \<longrightarrow> prices r a = Number (Num (1 / x)))
                  \<and> (rs a = Undefined \<longrightarrow> prices r a = Null)
                  \<and> (rs a = Number (Num 0) \<longrightarrow> prices r a = Null)))"
    by (intro bexI[of _ ?r]) simp_all
  with len srt show ?thesis
    by (intro conjI)
qed

theorem fiat_observation_witness:
  "processFiatResponse [(''2023-01-01'', (\<lambda>_. Undefined)(''EUR'' := Number (Num (9 / 10))))]
     [''USD'', ''EUR''] ''USD''
     = [\<lparr>date = ''2023-01-01'',
         prices = (\<lambda>_. Undefined)(''USD'' := Number (Num 1), ''EUR'' := Number (Num (1 / (9 / 10))))\<rparr>]
   \<and> (\<exists>r \<in> set (processFiatResponse
                    [(''2023-01-01'', (\<lambda>_. Undefined)(''EUR'' := Number (Num (9 / 10))))]
                    [''USD'', ''EUR''] ''USD'').
         date r = ''2023-01-01'' \<and> prices r ''USD'' = Number (Num 1)
         \<and> prices r ''EUR'' = Number (Num (1 / (9 / 10))))"
proof -
  let ?rs = "(\<lambda>_. Undefined)(''EUR'' := Number (Num (9 / 10)))"
  let ?rates = "[(''2023-01-01'', ?rs)]"
  let ?A = "[''USD'', ''EUR'']"
  have "(''2023-01-01'', ?rs) \<in> set ?rates"
    by simp
  from fiat_observation[OF this, of ?A "''USD''"] obtain r where
    r: "r \<in> set (processFiatResponse ?rates ?A ''USD'')" "date r = ''2023-01-01''"
    and p: "\<forall>a \<in> set ?A.
                 (a = ''USD'' \<longrightarrow> prices r a = Number (Num 1))
               \<and> (a \<noteq> ''USD'' \<longrightarrow>
                    (\<forall>x. ?rs a = Number (Num x) \<and> x \<noteq> 0 \<longrightarrow> prices r a = Number (Num (1 / x))))"
    by (elim conjE bexE) (rule that, assumption+, blast)
  have "prices r ''USD'' = Number (Num 1)"
    using p by simp
  moreover have "''EUR'' \<in> set ?A" and "''EUR'' \<noteq> ''USD''"
    and "?rs ''EUR'' = Number (Num (9 / 10)) \<and> (9 / 10 :: real) \<noteq> 0"
    by simp_all
  then have "prices r ''EUR'' = Number (Num (1 / (9 / 10)))"
    using p by blast
  moreover have "processFiatResponse ?rates ?A ''USD''
     = [\<lparr>date = ''2023-01-01'',
         prices = (\<lambda>_. Undefined)(''USD'' := Number (Num 1), ''EUR'' := Number (Num (1 / (9 / 10))))\<rparr>]"
    by (simp add: processFiatResponse_def)
  ultimately show ?thesis
    using r by blast
qed

text \<open>
  The claim as first stated fails for a rate that is present and 0: the truthiness
  test sends it to the \<open>null\<close> branch, so the price is absent and not \<open>1 / 0\<close>.
\<close>

theorem fiat_zero_rate_counterexample:
  "processFiatResponse [(''2023-01-01'', (\<lambda>_. Undefined)(''EUR'' := Number (Num 0)))]
     [''USD'', ''EUR''] ''USD''
     = [\<lparr>date = ''2023-01-01'',
         prices = (\<lambda>_. Undefined)(''USD'' := Number (Num 1), ''EUR'' := Null)\<rparr>]"
  by (simp add: processFiatResponse_def)

subsection \<open>The controller\<close>

lemma parseAssets_example: "parseAssets ''usd, eur ,,btc'' = [''USD'', ''EUR'', ''BTC'']"
  by code_simp

lemma parseAssets_empty: "parseAssets '''' = []"
  by (simp add: parseAssets_def toUpperCase_def trim_def isSpace_def upperChar_def)

text \<open>
  C9. For every request whose asset input yields fewer than two symbols, \<open>run\<close> fails
  with the insufficient-assets error right after the first status line: the list of
  effects holds no call of \<open>fetch\<close>, whatever the source and whatever the fetch would
  have returned. Requesting \<open>USD\<close> alone fails this way.
\<close>

theorem insufficient_assets:
  assumes "length (parseAssets assetsStr) < 2"
  shows "run fetch source assetsStr lookback =
           [SetStatus ''Fetching data...'' ''loading'', ErrorShown InsufficientAssetsError]
       \<and> (\<forall>s as l. FetchCall s as l \<notin> set (run fetch source assetsStr lookback))"
  using assms by (simp add: run_def InsufficientAssetsError_def Let_def)

theorem insufficient_assets_witness:
  "parseAssets ''USD'' = [''USD'']
   \<and> run (\<lambda>source assets lookback. Inr []) ''fiat'' ''USD'' (Num 30) =
       [SetStatus ''Fetching data...'' ''loading'',
        ErrorShown (Error ''Please provide at least 2 assets.'')]"
proof -
  have p: "parseAssets ''USD'' = [''USD'']"
    by (simp add: parseAssets_def toUpperCase_def trim_def isSpace_def upperChar_def)
  then have "length (parseAssets ''USD'') < 2"
    by simp
  from insufficient_assets[OF this, of "\<lambda>source assets lookback. Inr []" "''fiat''" "Num 30"] p
  show ?thesis
    by (simp add: InsufficientAssetsError_def)
qed

lemma run_fetches:
  "2 \<le> length (parseAssets assetsStr) \<Longrightarrow>
   run fetch source assetsStr lookback ! 1 = FetchCall source (parseAssets assetsStr) lookback"
  by (auto simp: run_def Let_def split: sum.splits option.splits)

subsection \<open>Crypto response: what the date table holds\<close>

text \<open>
  The candles in the order in which the two nested loops visit them, each with the
  asset it belongs to.
\<close>

definition candles :: "(string \<times> kline list) list \<Rightarrow> (string \<times> kline) list" where
  "candles results = concat (map (\<lambda>res. map (\<lambda>k. (fst res, k)) (snd res)) results)"

definition candleDate :: "(int \<Rightarrow> string) \<Rightarrow> string \<times> kline \<Rightarrow> string" where
  "candleDate isoDate e = isoDate (fst (snd e))"

text \<open>The dates of a list of candles in order of first appearance.\<close>

definition tableDates :: "(int \<Rightarrow> string) \<Rightarrow> (string \<times> kline) list \<Rightarrow> string list" where
  "tableDates isoDate es = rev (remdups (rev (map (candleDate isoDate) es)))"

text \<open>The price the table holds for a date and an asset: the close of the last candle of both.\<close>

definition priceOf :: "(int \<Rightarrow> string) \<Rightarrow> (string \<times> kline) list \<Rightarrow> string \<Rightarrow> string \<Rightarrow> jsval" where
  "priceOf isoDate es d a =
     (case List.find (\<lambda>e. fst e = a \<and> candleDate isoDate e = d) (rev es) of
        None \<Rightarrow> Undefined
      | Some e \<Rightarrow> Number (snd (snd e)))"

definition tableRow :: "(int \<Rightarrow> string) \<Rightarrow> (string \<times> kline) list \<Rightarrow> string \<Rightarrow> row" where
  "tableRow isoDate es d = \<lparr>date = d, prices = priceOf isoDate es d\<rparr>"

lemma fold_results:
  "fold (resultStep isoDate) results m =
     fold (\<lambda>e. klineStep isoDate (fst e) (snd e)) (candles results) m"
proof (induction results arbitrary: m)
  case Nil
  then show ?case by (simp add: candles_def)
next
  case (Cons res results)
  have "fold (\<lambda>e. klineStep isoDate (fst e) (snd e)) (map (\<lambda>k. (fst res, k)) (snd res)) m
          = resultStep isoDate res m"
    by (simp add: resultStep_def fold_map comp_def)
  with Cons show ?case
    by (simp add: candles_def)
qed

lemma tableDates_snoc:
  "tableDates isoDate (es @ [e]) =
     (if candleDate isoDate e \<in> set (tableDates isoDate es) then tableDates isoDate es
      else tableDates isoDate es @ [candleDate isoDate e])"
  by (simp add: tableDates_def)

lemma set_tableDates: "set (tableDates isoDate es) = candleDate isoDate ` set es"
  by (simp add: tableDates_def)

lemma distinct_tableDates: "distinct (tableDates isoDate es)"
  by (simp add: tableDates_def)

lemma priceOf_snoc:
  "priceOf isoDate (es @ [e]) d a =
     (if fst e = a \<and> candleDate isoDate e = d then Number (snd (snd e)) else priceOf isoDate es d a)"
  by (simp add: priceOf_def)

lemma priceOf_new:
  "d \<notin> set (tableDates isoDate es) \<Longrightarrow> priceOf isoDate es d a = Undefined"
proof -
  assume "d \<notin> set (tableDates isoDate es)"
  then have "List.find (\<lambda>e. fst e = a \<and> candleDate isoDate e = d) (rev es) = None"
    by (auto simp: find_None_iff set_tableDates)
  then show ?thesis
    by (simp add: priceOf_def)
qed

lemma setPrice_map:
  "distinct ds \<Longrightarrow>
   setPrice d a c (map (\<lambda>k. \<lparr>date = k, prices = f k\<rparr>) ds) =
     map (\<lambda>k. \<lparr>date = k, prices = (if k = d then (f k)(a := Number c) else f k)\<rparr>) ds"
  by (induction ds) auto

lemma table_closed:
  "fold (\<lambda>e. klineStep isoDate (fst e) (snd e)) es [] =
     map (tableRow isoDate es) (tableDates isoDate es)"
proof (induction es rule: rev_induct)
  case Nil
  then show ?case by (simp add: tableDates_def)
next
  case (snoc e es)
  let ?d = "candleDate isoDate e"
  let ?M = "map (tableRow isoDate es) (tableDates isoDate es)"
  let ?ds' = "tableDates isoDate (es @ [e])"
  have dates: "map date ?M = tableDates isoDate es"
    by (simp add: tableRow_def comp_def)
  have d': "distinct ?ds'"
    by (rule distinct_tableDates)
  have upd: "(if k = ?d then (priceOf isoDate es k)(fst e := Number (snd (snd e)))
              else priceOf isoDate es k) = priceOf isoDate (es @ [e]) k" for k
    by (auto simp: fun_eq_iff priceOf_snoc)
  have ext: "(if ?d \<notin> set (tableDates isoDate es)
              then ?M @ [\<lparr>date = ?d, prices = (\<lambda>_. Undefined)\<rparr>] else ?M)
             = map (\<lambda>k. \<lparr>date = k, prices = priceOf isoDate es k\<rparr>) ?ds'"
    by (auto simp: tableDates_snoc tableRow_def[abs_def] priceOf_new fun_eq_iff)
  have "fold (\<lambda>e. klineStep isoDate (fst e) (snd e)) (es @ [e]) [] = klineStep isoDate (fst e) (snd e) ?M"
    using snoc by simp
  also have "\<dots> = setPrice ?d (fst e) (snd (snd e))
                     (map (\<lambda>k. \<lparr>date = k, prices = priceOf isoDate es k\<rparr>) ?ds')"
    unfolding klineStep_def Let_def dates ext[symmetric] by (simp add: candleDate_def)
  also have "\<dots> = map (\<lambda>k. \<lparr>date = k,
                              prices = (if k = ?d then (priceOf isoDate es k)(fst e := Number (snd (snd e)))
                                        else priceOf isoDate es k)\<rparr>) ?ds'"
    using d' by (rule setPrice_map)
  also have "\<dots> = map (tableRow isoDate (es @ [e])) ?ds'"
    by (simp only: upd tableRow_def[abs_def])
  finally show ?case .
qed

lemma is_pos_localeCompare: "is_pos (localeCompare a b) = (b < a)"
  by (auto simp: localeCompare_def)

lemma sorted_insertBy_date:
  "sorted xs \<Longrightarrow> sorted (insertBy localeCompare x xs)"
  by (induction xs) (auto simp: is_pos_localeCompare set_insertBy)

lemma sorted_sortBy_date: "sorted (sortBy localeCompare xs)"
  by (induction xs) (simp_all add: sortBy_def sorted_insertBy_date)

lemma processCryptoResponse_closed:
  "processCryptoResponse isoDate results =
     map (tableRow isoDate (candles results))
       (sortBy localeCompare (tableDates isoDate (candles results)))"
proof -
  have "(\<lambda>i j. localeCompare (date (tableRow isoDate (candles results) i))
                              (date (tableRow isoDate (candles results) j))) = localeCompare"
    by (simp add: tableRow_def fun_eq_iff)
  then show ?thesis
    by (simp add: processCryptoResponse_def fold_results table_closed sortBy_map)
qed

text \<open>The candles a request delivered: none when it failed.\<close>

definition klinesOf :: "(string \<Rightarrow> response) \<Rightarrow> string \<Rightarrow> kline list" where
  "klinesOf net a = (case net (symbolOf a) of Klines ks \<Rightarrow> ks | _ \<Rightarrow> [])"

lemma fetchOne_klinesOf: "fetchOne net a = (a, klinesOf net a)"
  by (simp add: fetchOne_def klinesOf_def split: response.splits)

lemma candles_fetch_snoc:
  "candles (map (fetchOne net) (as @ [x])) =
     candles (map (fetchOne net) as) @ map (\<lambda>k. (x, k)) (klinesOf net x)"
  by (simp add: candles_def fetchOne_klinesOf)

lemma set_candles_fetch:
  "set (candles (map (fetchOne net) as)) = {(a, k) | a k. a \<in> set as \<and> k \<in> set (klinesOf net a)}"
  by (auto simp: candles_def fetchOne_klinesOf)

lemma find_map_list:
  "List.find P (map g xs) = map_option g (List.find (\<lambda>x. P (g x)) xs)"
  by (induction xs) simp_all

lemma in_klinesOf:
  "k \<in> set (klinesOf net a) \<longleftrightarrow> (\<exists>ks. net (symbolOf a) = Klines ks \<and> k \<in> set ks)"
  by (cases "net (symbolOf a)") (simp_all add: klinesOf_def)

lemma find_candles:
  "List.find (\<lambda>e. fst e = a \<and> candleDate isoDate e = d) (rev (candles (map (fetchOne net) as))) =
     (if a \<in> set as
      then map_option (\<lambda>k. (a, k)) (List.find (\<lambda>k. isoDate (fst k) = d) (rev (klinesOf net a)))
      else None)"
proof (induction as rule: rev_induct)
  case Nil
  then show ?case by (simp add: candles_def)
next
  case (snoc x as)
  let ?P = "\<lambda>e. fst e = a \<and> candleDate isoDate e = d"
  let ?own = "map_option (\<lambda>k. (a, k)) (List.find (\<lambda>k. isoDate (fst k) = d) (rev (klinesOf net a)))"
  have last: "List.find ?P (rev (map (\<lambda>k. (x, k)) (klinesOf net x))) = (if x = a then ?own else None)"
    by (auto simp: rev_map find_map_list candleDate_def find_None_iff)
  have "List.find ?P (rev (candles (map (fetchOne net) (as @ [x])))) =
          (case List.find ?P (rev (map (\<lambda>k. (x, k)) (klinesOf net x))) of
             Some e \<Rightarrow> Some e
           | None \<Rightarrow> List.find ?P (rev (candles (map (fetchOne net) as))))"
    by (simp only: candles_fetch_snoc rev_append find_append)
  also have "\<dots> = (if a \<in> set (as @ [x]) then ?own else None)"
    by (auto simp: last snoc split: option.splits)
  finally show ?case .
qed

lemma priceOf_fetch:
  "a \<in> set assets \<Longrightarrow>
   priceOf isoDate (candles (map (fetchOne net) assets)) d a =
     (case List.find (\<lambda>k. isoDate (fst k) = d) (rev (klinesOf net a)) of
        None \<Rightarrow> Undefined
      | Some k \<Rightarrow> Number (snd k))"
  by (simp add: priceOf_def find_candles split: option.splits)

lemma priceOf_failed:
  "klinesOf net f = [] \<Longrightarrow> priceOf isoDate (candles (map (fetchOne net) assets)) d f = Undefined"
  by (simp add: priceOf_def find_candles)

text \<open>
  C8. In the crypto provider a request that throws or answers with a status that is
  not ok yields the empty series for its asset and the fetch still returns: the
  merged series holds exactly the dates of the candles of the assets whose requests
  succeeded, each once and in ascending order; on every observation the price of the
  failed asset is absent, and the price of an asset that succeeded is the close of its
  last candle whose open time falls on that calendar date.
\<close>

theorem crypto_partial_failure:
  assumes "net (symbolOf f) = Threw \<or> net (symbolOf f) = NotOk"
  shows "fetchOne net f = (f, [])
       \<and> sorted (map date (fetchCrypto isoDate net assets))
       \<and> distinct (map date (fetchCrypto isoDate net assets))
       \<and> set (map date (fetchCrypto isoDate net assets)) =
           {isoDate (fst k) | a ks k. a \<in> set assets \<and> net (symbolOf a) = Klines ks \<and> k \<in> set ks}
       \<and> (\<forall>r \<in> set (fetchCrypto isoDate net assets).
             prices r f = Undefined
           \<and> (\<forall>a \<in> set assets. \<forall>ks. net (symbolOf a) = Klines ks \<longrightarrow>
                 prices r a =
                   (case List.find (\<lambda>k. isoDate (fst k) = date r) (rev ks) of
                      None \<Rightarrow> Undefined
                    | Some k \<Rightarrow> Number (snd k))))"
proof -
  let ?es = "candles (map (fetchOne net) assets)"
  let ?ds = "sortBy localeCompare (tableDates isoDate ?es)"
  let ?out = "fetchCrypto isoDate net assets"
  have out: "?out = map (tableRow isoDate ?es) ?ds"
    by (simp add: fetchCrypto_def processCryptoResponse_closed)
  have dates: "map date ?out = ?ds"
    by (simp add: out tableRow_def comp_def)
  have failed: "klinesOf net f = []"
    using assms by (auto simp: klinesOf_def)
  have one: "fetchOne net f = (f, [])"
    using failed by (simp add: fetchOne_klinesOf)
  have srt: "sorted (map date ?out)"
    by (simp only: dates sorted_sortBy_date)
  have dst: "distinct (map date ?out)"
    by (simp only: dates distinct_sortBy distinct_tableDates)
  have "set (map date ?out) = candleDate isoDate ` set ?es"
    by (simp only: dates set_sortBy set_tableDates)
  also have "\<dots> = {isoDate (fst k) | a k. a \<in> set assets \<and> k \<in> set (klinesOf net a)}"
    by (force simp: set_candles_fetch candleDate_def image_iff)
  also have "\<dots> = {isoDate (fst k) | a ks k. a \<in> set assets \<and> net (symbolOf a) = Klines ks \<and> k \<in> set ks}"
    by (simp only: in_klinesOf) blast
  finally have st: "set (map date ?out) =
      {isoDate (fst k) | a ks k. a \<in> set assets \<and> net (symbolOf a) = Klines ks \<and> k \<in> set ks}" .
  have rows: "prices r f = Undefined
           \<and> (\<forall>a \<in> set assets. \<forall>ks. net (symbolOf a) = Klines ks \<longrightarrow>
                 prices r a =
                   (case List.find (\<lambda>k. isoDate (fst k) = date r) (rev ks) of
                      None \<Rightarrow> Undefined
                    | Some k \<Rightarrow> Number (snd k)))"
    if "r \<in> set ?out" for r
  proof -
    from that obtain d where r: "r = tableRow isoDate ?es d"
      by (auto simp: out)
    have "prices r f = Undefined"
      using failed by (simp add: r tableRow_def priceOf_failed)
    moreover have "prices r a =
                   (case List.find (\<lambda>k. isoDate (fst k) = date r) (rev ks) of
                      None \<Rightarrow> Undefined
                    | Some k \<Rightarrow> Number (snd k))"
      if "a \<in> set assets" and "net (symbolOf a) = Klines ks" for a ks
    proof -
      have "klinesOf net a = ks"
        using that(2) by (simp add: klinesOf_def)
      with that(1) show ?thesis
        by (simp add: r tableRow_def priceOf_fetch)
    qed
    ultimately show ?thesis
      by blast
  qed
  from one srt dst st rows show ?thesis
    by (intro conjI ballI) auto
qed

definition demoClock :: "int \<Rightarrow> string" where
  "demoClock t = (if t = 1672531200000 then ''2023-01-01'' else ''2023-01-02'')"

definition demoNet :: "string \<Rightarrow> response" where
  "demoNet symbol =
     (if symbol = ''BTCUSDT''
      then Klines [(1672617600000, Num 110), (1672531200000, Num 100)]
      else Threw)"

theorem crypto_partial_failure_witness:
  "fetchOne demoNet ''ETH'' = (''ETH'', [])
   \<and> fetchCrypto demoClock demoNet [''ETH'', ''BTC''] =
       [\<lparr>date = ''2023-01-01'', prices = (\<lambda>_. Undefined)(''BTC'' := Number (Num 100))\<rparr>,
        \<lparr>date = ''2023-01-02'', prices = (\<lambda>_. Undefined)(''BTC'' := Number (Num 110))\<rparr>]
   \<and> sorted (map date (fetchCrypto demoClock demoNet [''ETH'', ''BTC'']))"
proof -
  have eth: "symbolOf ''ETH'' = ''ETHUSDT''" and btc: "symbolOf ''BTC'' = ''BTCUSDT''"
    by (simp_all add: symbolOf_def endsWith_def toUpperCase_def upperChar_def)
  have "demoNet (symbolOf ''ETH'') = Threw \<or> demoNet (symbolOf ''ETH'') = NotOk"
    by (simp add: eth demoNet_def)
  note t = crypto_partial_failure[of demoNet "''ETH''" demoClock "[''ETH'', ''BTC'']", OF this]
  have "fetchCrypto demoClock demoNet [''ETH'', ''BTC''] =
       [\<lparr>date = ''2023-01-01'', prices = (\<lambda>_. Undefined)(''BTC'' := Number (Num 100))\<rparr>,
        \<lparr>date = ''2023-01-02'', prices = (\<lambda>_. Undefined)(''BTC'' := Number (Num 110))\<rparr>]"
    by (simp add: fetchCrypto_def processCryptoResponse_def fetchOne_def eth btc demoNet_def
          resultStep_def klineStep_def demoClock_def sortBy_def localeCompare_def)
  with t show ?thesis
    by simp
qed

end
